theory Spec2Isabelle
  imports Main "HOL-Library.Sublist"
begin

text \<open>
  A model of \<open>app.py\<close>: the helpers \<open>extract_text_from_pdf\<close>,
  \<open>analyze_with_gemini\<close>, \<open>smart_format_text\<close> and \<open>smart_format_skills\<close>, and the
  routes \<open>ats_tool\<close> and \<open>resume_builder\<close>. The Python library functions they call
  (\<open>str.strip\<close>, \<open>str.title\<close>, \<open>str.replace\<close>, \<open>re.split\<close>, \<open>json.loads\<close>) are
  modelled first; the PDF reader, the reasoning engine and the database are parameters.
  Exceptions are values: a function that can raise returns a sum, \<open>Inl\<close> the exception.
\<close>

section \<open>Python strings\<close>

text \<open>
  Python's \<open>str\<close> is modelled by \<open>string\<close>, read as ASCII text: the character
  classes below are the ones Python uses on code points below 128, and a character from
  128 on counts as neither white space nor a letter.
\<close>

definition is_space :: "char \<Rightarrow> bool" where
  \<comment> \<open>\<open>str.isspace\<close> and the regular expression class \<open>\s\<close>: tab, line feed, vertical
      tab, form feed, carriage return, the four separators 28 to 31, and the space\<close>
  "is_space c = (let n = (of_char c :: nat) in (9 \<le> n \<and> n \<le> 13) \<or> (28 \<le> n \<and> n \<le> 32))"

definition is_upper :: "char \<Rightarrow> bool" where
  "is_upper c = (let n = (of_char c :: nat) in 65 \<le> n \<and> n \<le> 90)"

definition is_lower :: "char \<Rightarrow> bool" where
  "is_lower c = (let n = (of_char c :: nat) in 97 \<le> n \<and> n \<le> 122)"

definition is_cased :: "char \<Rightarrow> bool" where
  "is_cased c = (is_upper c \<or> is_lower c)"

definition to_upper :: "char \<Rightarrow> char" where
  "to_upper c = (if is_lower c then char_of ((of_char c :: nat) - 32) else c)"

definition to_lower :: "char \<Rightarrow> char" where
  "to_lower c = (if is_upper c then char_of ((of_char c :: nat) + 32) else c)"

definition strip :: "string \<Rightarrow> string" where
  \<comment> \<open>\<open>s.strip()\<close>\<close>
  "strip s = rev (dropWhile is_space (rev (dropWhile is_space s)))"

fun title_from :: "bool \<Rightarrow> string \<Rightarrow> string" where
  \<comment> \<open>the loop of \<open>str.title\<close>; the flag says whether the previous character is cased\<close>
  "title_from prev [] = []"
| "title_from prev (c # cs) =
     (if prev then to_lower c else to_upper c) # title_from (is_cased c) cs"

definition title :: "string \<Rightarrow> string" where
  \<comment> \<open>\<open>s.title()\<close>\<close>
  "title s = title_from False s"

fun replace :: "string \<Rightarrow> string \<Rightarrow> string \<Rightarrow> string" where
  \<comment> \<open>\<open>s.replace(old, new)\<close>, written \<open>replace old new s\<close>: every occurrence of
      \<open>old\<close>, found from the left without overlap\<close>
  "replace [] new s = new @ concat (map (\<lambda>c. c # new) s)"
| "replace (a # as) new [] = []"
| "replace (a # as) new (c # cs) =
     (if prefix (a # as) (c # cs) then new @ replace (a # as) new (drop (length as) cs)
      else c # replace (a # as) new cs)"

fun join :: "string \<Rightarrow> string list \<Rightarrow> string" where
  \<comment> \<open>\<open>sep.join(parts)\<close>\<close>
  "join sep [] = []"
| "join sep [p] = p"
| "join sep (p # q # ps) = p @ sep @ join sep (q # ps)"

section \<open>The text formatters\<close>

definition smart_format_text :: "string option \<Rightarrow> string" where
  \<comment> \<open>the argument is \<open>None\<close> when the form has no such field\<close>
  "smart_format_text text =
     (case text of
        None \<Rightarrow> []
      | Some t \<Rightarrow>
          if t = [] then []
          else replace '' Uni'' '' University''
                 (replace '' Uni '' '' University '' (title (strip t))))"

definition is_delim :: "char \<Rightarrow> bool" where
  \<comment> \<open>the character class \<open>[,\s]\<close>\<close>
  "is_delim c = (c = CHR '','' \<or> is_space c)"

function re_split :: "string \<Rightarrow> string list" where
  \<comment> \<open>\<open>re.split(r'[,\s]+', s)\<close>: the pieces between the maximal runs of delimiters,
      an empty piece before a leading run and after a trailing one\<close>
  "re_split s =
     (case dropWhile (\<lambda>c. \<not> is_delim c) s of
        [] \<Rightarrow> [s]
      | d # ds \<Rightarrow> takeWhile (\<lambda>c. \<not> is_delim c) s # re_split (dropWhile is_delim ds))"
  by pat_completeness auto

termination
proof (relation "measure length")
  fix s :: string and d ds
  assume "dropWhile (\<lambda>c. \<not> is_delim c) s = d # ds"
  then have "length (d # ds) \<le> length s"
    by (metis length_dropWhile_le)
  moreover have "length (dropWhile is_delim ds) \<le> length ds"
    by (rule length_dropWhile_le)
  ultimately show "(dropWhile is_delim ds, s) \<in> measure length"
    by simp
qed simp

declare re_split.simps [simp del]

definition smart_format_skills :: "string option \<Rightarrow> string" where
  "smart_format_skills text =
     (case text of
        None \<Rightarrow> []
      | Some t \<Rightarrow>
          if t = [] then []
          else join '', ''
                 (map (\<lambda>p. title (strip p)) (filter (\<lambda>p. strip p \<noteq> []) (re_split t))))"

text \<open>
  The specification's reading of the skill normaliser, for comparison with the code:
  cut the text at every single delimiter, discard the empty fragments, trim and
  title-case the others, join them with a comma and a space.
\<close>

fun fragments :: "string \<Rightarrow> string list" where
  "fragments [] = [[]]"
| "fragments (c # cs) =
     (if is_delim c then [] # fragments cs
      else (c # hd (fragments cs)) # tl (fragments cs))"

definition normalize_skill_list_spec :: "string \<Rightarrow> string" where
  "normalize_skill_list_spec s =
     join '', '' (map (\<lambda>f. title (strip f)) (filter (\<lambda>f. f \<noteq> []) (fragments s)))"

section \<open>Exceptions\<close>

datatype exn = Exn string string
  \<comment> \<open>a raised exception: its class name and the text \<open>str(e)\<close>\<close>

fun exn_str :: "exn \<Rightarrow> string" where
  "exn_str (Exn cls msg) = msg"

section \<open>Decimal numerals\<close>

definition is_digit :: "char \<Rightarrow> bool" where
  "is_digit c = (let n = (of_char c :: nat) in 48 \<le> n \<and> n \<le> 57)"

definition digit_val :: "char \<Rightarrow> nat" where
  "digit_val c = (of_char c :: nat) - 48"

definition digit_char :: "nat \<Rightarrow> char" where
  "digit_char d = char_of (48 + d)"

function str_nat :: "nat \<Rightarrow> string" where
  \<comment> \<open>\<open>str(n)\<close> for a natural number\<close>
  "str_nat n = (if n < 10 then [digit_char n] else str_nat (n div 10) @ [digit_char (n mod 10)])"
  by pat_completeness auto

termination
  by (relation "measure id") auto

declare str_nat.simps [simp del]

definition int_of_digits :: "string \<Rightarrow> int" where
  "int_of_digits ds = foldl (\<lambda>a c. 10 * a + int (digit_val c)) 0 ds"

section \<open>JSON values and the decoder\<close>

text \<open>
  What \<open>json.loads\<close> returns: \<open>None\<close>, a \<open>bool\<close>, an \<open>int\<close>, a \<open>float\<close>, a
  \<open>str\<close>, a \<open>list\<close> or a \<open>dict\<close>. A float is kept as the numeral that was read, since
  no claim computes with one. A \<open>dict\<close> is the list of its items in insertion order,
  with distinct keys.
\<close>

datatype json =
    JNull
  | JBool bool
  | JInt int
  | JFloat string
  | JStr string
  | JList "json list"
  | JDict "(string \<times> json) list"

fun dict_set :: "(string \<times> json) list \<Rightarrow> string \<Rightarrow> json \<Rightarrow> (string \<times> json) list" where
  \<comment> \<open>\<open>d[k] = v\<close>: a key already present keeps its place\<close>
  "dict_set [] k v = [(k, v)]"
| "dict_set ((k', v') # d) k v = (if k' = k then (k, v) # d else (k', v') # dict_set d k v)"

definition dict_of :: "(string \<times> json) list \<Rightarrow> (string \<times> json) list" where
  \<comment> \<open>\<open>dict(pairs)\<close>\<close>
  "dict_of pairs = foldl (\<lambda>d (k, v). dict_set d k v) [] pairs"

text \<open>
  The decoder follows CPython's \<open>json\<close> package (\<open>json/decoder.py\<close>, \<open>json/scanner.py\<close>
  and the string scanner of \<open>_json.c\<close>, as of Python 3.12) on ASCII documents; a
  \<open>\u\<close> escape beyond ASCII is stored in UTF-8. The scanning functions work on the
  text that is left; an error is a message with the number of characters left at the
  position it refers to. Two limits of CPython are not modelled: the recursion limit
  on nested containers and the limit on the number of digits of an integer.
\<close>

type_synonym 'a scan = "(string \<times> nat) + ('a \<times> string)"

definition is_json_ws :: "char \<Rightarrow> bool" where
  "is_json_ws c = (c = CHR '' '' \<or> c = CHR 0x09 \<or> c = CHR 0x0A \<or> c = CHR 0x0D)"

definition skip_ws :: "string \<Rightarrow> string" where
  "skip_ws s = dropWhile is_json_ws s"

definition hex_val :: "char \<Rightarrow> nat option" where
  "hex_val c =
     (let n = (of_char c :: nat) in
      if 48 \<le> n \<and> n \<le> 57 then Some (n - 48)
      else if 97 \<le> n \<and> n \<le> 102 then Some (n - 87)
      else if 65 \<le> n \<and> n \<le> 70 then Some (n - 55)
      else None)"

definition hex4 :: "string \<Rightarrow> nat option" where
  \<comment> \<open>the value of the first four characters, when they are hexadecimal digits\<close>
  "hex4 s =
     (case s of
        a # b # c # d # _ \<Rightarrow>
          (case (hex_val a, hex_val b, hex_val c, hex_val d) of
             (Some w, Some x, Some y, Some z) \<Rightarrow> Some (((w * 16 + x) * 16 + y) * 16 + z)
           | _ \<Rightarrow> None)
      | _ \<Rightarrow> None)"

definition utf8 :: "nat \<Rightarrow> string" where
  "utf8 u =
     (if u < 128 then [char_of u]
      else if u < 2048 then [char_of (192 + u div 64), char_of (128 + u mod 64)]
      else if u < 65536 then
        [char_of (224 + u div 4096), char_of (128 + u div 64 mod 64), char_of (128 + u mod 64)]
      else
        [char_of (240 + u div 262144), char_of (128 + u div 4096 mod 64),
         char_of (128 + u div 64 mod 64), char_of (128 + u mod 64)])"

definition unescape :: "char \<Rightarrow> char option" where
  "unescape e =
     (if e = CHR 0x22 \<or> e = CHR 0x5C \<or> e = CHR ''/'' then Some e
      else if e = CHR ''b'' then Some (CHR 0x08)
      else if e = CHR ''f'' then Some (CHR 0x0C)
      else if e = CHR ''n'' then Some (CHR 0x0A)
      else if e = CHR ''r'' then Some (CHR 0x0D)
      else if e = CHR ''t'' then Some (CHR 0x09)
      else None)"

definition bad_u_escape :: string where
  "bad_u_escape = ''Invalid '' @ [CHR 0x5C] @ ''uXXXX escape''"

definition unicode_escape :: "string \<Rightarrow> (string \<times> nat) + (string \<times> nat)" where
  \<comment> \<open>the text after \<open>\u\<close>: the characters it stands for, in UTF-8, and how many
      characters of the text belong to the escape (ten for a surrogate pair)\<close>
  "unicode_escape es =
     (if length es \<le> 4 then Inl (bad_u_escape, Suc (length es))
      else
        (case hex4 es of
           None \<Rightarrow> Inl (bad_u_escape, Suc (length es))
         | Some u \<Rightarrow>
             if 55296 \<le> u \<and> u \<le> 56319 \<and> 6 < length (drop 4 es)
                \<and> prefix [CHR 0x5C, CHR ''u''] (drop 4 es)
             then
               (case hex4 (drop 6 es) of
                  None \<Rightarrow> Inl (bad_u_escape, length (drop 5 es))
                | Some l \<Rightarrow>
                    if 56320 \<le> l \<and> l \<le> 57343
                    then Inr (utf8 (65536 + (u - 55296) * 1024 + (l - 56320)), 10)
                    else Inr (utf8 u, 4))
             else Inr (utf8 u, 4)))"

fun scanstring :: "nat \<Rightarrow> string \<Rightarrow> string \<Rightarrow> string scan" where
  \<comment> \<open>the text after an opening quote; \<open>b\<close> locates that quote, \<open>acc\<close> is the content
      read so far\<close>
  "scanstring b acc [] = Inl (''Unterminated string starting at'', b)"
| "scanstring b acc (c # cs) =
     (if c = CHR 0x22 then Inr (acc, cs)
      else if c = CHR 0x5C then
        (case cs of
           [] \<Rightarrow> Inl (''Unterminated string starting at'', b)
         | e # es \<Rightarrow>
             if e = CHR ''u'' then
               (case unicode_escape es of
                  Inl err \<Rightarrow> Inl err
                | Inr (chars, n) \<Rightarrow> scanstring b (acc @ chars) (drop n es))
             else
               (case unescape e of
                  None \<Rightarrow> Inl (''Invalid '' @ [CHR 0x5C] @ ''escape'', Suc (Suc (length es)))
                | Some ch \<Rightarrow> scanstring b (acc @ [ch]) es))
      else if (of_char c :: nat) \<le> 31 then Inl (''Invalid control character at'', Suc (length cs))
      else scanstring b (acc @ [c]) cs)"

definition match_exponent :: "string \<Rightarrow> string \<times> string" where
  \<comment> \<open>the group \<open>([eE][-+]?[0-9]+)?\<close>\<close>
  "match_exponent s =
     (case s of
        [] \<Rightarrow> ([], s)
      | e # cs \<Rightarrow>
          if e = CHR ''e'' \<or> e = CHR ''E'' then
            (let sign = (case cs of
                           [] \<Rightarrow> []
                         | c # _ \<Rightarrow> if c = CHR ''-'' \<or> c = CHR ''+'' then [c] else []);
                 ds = drop (length sign) cs
             in if ds \<noteq> [] \<and> is_digit (hd ds)
                then (e # sign @ takeWhile is_digit ds, dropWhile is_digit ds)
                else ([], s))
          else ([], s))"

definition match_fraction :: "string \<Rightarrow> string \<times> string" where
  \<comment> \<open>the group \<open>(\.[0-9]+)?\<close>\<close>
  "match_fraction s =
     (case s of
        [] \<Rightarrow> ([], s)
      | c # cs \<Rightarrow>
          if c = CHR ''.'' \<and> cs \<noteq> [] \<and> is_digit (hd cs)
          then (c # takeWhile is_digit cs, dropWhile is_digit cs)
          else ([], s))"

definition match_number :: "string \<Rightarrow> (json \<times> string) option" where
  \<comment> \<open>\<open>NUMBER_RE.match\<close> and the conversion of what it matched\<close>
  "match_number s =
     (let neg = (s \<noteq> [] \<and> hd s = CHR ''-'');
          r = (if neg then tl s else s)
      in case r of
           [] \<Rightarrow> None
         | d # ds \<Rightarrow>
             if \<not> is_digit d then None
             else
               (let ip = (if d = CHR ''0'' then [d] else d # takeWhile is_digit ds);
                    r1 = (if d = CHR ''0'' then ds else dropWhile is_digit ds);
                    (frac, r2) = match_fraction r1;
                    (ex, r3) = match_exponent r2
                in Some (if frac = [] \<and> ex = []
                         then JInt (if neg then - int_of_digits ip else int_of_digits ip)
                         else JFloat ((if neg then ''-'' else []) @ ip @ frac @ ex),
                         r3)))"

definition no_progress :: "string \<times> nat" where
  \<comment> \<open>returned by the two loops below should a value be read without consuming a
      character; the test makes the recursion well-founded and is shown never to fail
      (\<open>no_progress_unreachable\<close>)\<close>
  "no_progress = (''no progress'', 0)"

function (sequential) scan_once :: "string \<Rightarrow> json scan"
  and parse_object :: "(string \<times> json) list \<Rightarrow> string \<Rightarrow> json scan"
  and parse_array :: "json list \<Rightarrow> string \<Rightarrow> json scan"
where
  "scan_once [] = Inl (''Expecting value'', 0)"
| "scan_once (c # cs) =
     (if c = CHR 0x22 then
        (case scanstring (Suc (length cs)) [] cs of
           Inl e \<Rightarrow> Inl e
         | Inr (str, r) \<Rightarrow> Inr (JStr str, r))
      else if c = CHR ''{'' then
        (case skip_ws cs of
           [] \<Rightarrow> Inl (''Expecting property name enclosed in double quotes'', 0)
         | d # ds \<Rightarrow>
             if d = CHR ''}'' then Inr (JDict [], ds)
             else if d = CHR 0x22 then parse_object [] ds
             else Inl (''Expecting property name enclosed in double quotes'', Suc (length ds)))
      else if c = CHR ''['' then
        (case skip_ws cs of
           [] \<Rightarrow> parse_array [] []
         | d # ds \<Rightarrow> if d = CHR '']'' then Inr (JList [], ds) else parse_array [] (d # ds))
      else if prefix ''null'' (c # cs) then Inr (JNull, drop 3 cs)
      else if prefix ''true'' (c # cs) then Inr (JBool True, drop 3 cs)
      else if prefix ''false'' (c # cs) then Inr (JBool False, drop 4 cs)
      else
        (case match_number (c # cs) of
           Some (v, r) \<Rightarrow> Inr (v, r)
         | None \<Rightarrow>
             if prefix ''NaN'' (c # cs) then Inr (JFloat ''NaN'', drop 2 cs)
             else if prefix ''Infinity'' (c # cs) then Inr (JFloat ''Infinity'', drop 7 cs)
             else if prefix ''-Infinity'' (c # cs) then Inr (JFloat ''-Infinity'', drop 8 cs)
             else Inl (''Expecting value'', Suc (length cs))))"
| "parse_object pairs s =
     (case scanstring (Suc (length s)) [] s of
        Inl e \<Rightarrow> Inl e
      | Inr (key, r1) \<Rightarrow>
          if \<not> length r1 \<le> length s then Inl no_progress
          else
            (case skip_ws r1 of
               [] \<Rightarrow> Inl (''Expecting ':' delimiter'', 0)
             | c # r2 \<Rightarrow>
                 if c \<noteq> CHR '':'' then Inl (''Expecting ':' delimiter'', Suc (length r2))
                 else
                   (case scan_once (skip_ws r2) of
                      Inl e \<Rightarrow> Inl e
                    | Inr (v, r3) \<Rightarrow>
                        if \<not> length r3 \<le> length (skip_ws r2) then Inl no_progress
                        else
                          (case skip_ws r3 of
                             [] \<Rightarrow> Inl (''Expecting ',' delimiter'', 0)
                           | d # r4 \<Rightarrow>
                               if d = CHR ''}'' then Inr (JDict (dict_of (pairs @ [(key, v)])), r4)
                               else if d \<noteq> CHR '','' then
                                 Inl (''Expecting ',' delimiter'', Suc (length r4))
                               else
                                 (case skip_ws r4 of
                                    [] \<Rightarrow>
                                      Inl (''Expecting property name enclosed in double quotes'', 0)
                                  | q # r5 \<Rightarrow>
                                      if q \<noteq> CHR 0x22 then
                                        Inl (''Expecting property name enclosed in double quotes'',
                                             Suc (length r5))
                                      else parse_object (pairs @ [(key, v)]) r5)))))"
| "parse_array acc s =
     (case scan_once s of
        Inl e \<Rightarrow> Inl e
      | Inr (v, r1) \<Rightarrow>
          if \<not> length r1 \<le> length s then Inl no_progress
          else
            (case skip_ws r1 of
               [] \<Rightarrow> Inl (''Expecting ',' delimiter'', 0)
             | d # r2 \<Rightarrow>
                 if d = CHR '']'' then Inr (JList (acc @ [v]), r2)
                 else if d \<noteq> CHR '','' then Inl (''Expecting ',' delimiter'', Suc (length r2))
                 else parse_array (acc @ [v]) (skip_ws r2)))"
  by pat_completeness auto

termination
proof -
  have ws: "\<And>s. length (skip_ws s) \<le> length s"
    by (simp add: skip_ws_def length_dropWhile_le)
  have wc: "\<And>s d ds. skip_ws s = d # ds \<Longrightarrow> Suc (length ds) \<le> length s"
  proof -
    fix s d ds
    assume "skip_ws s = d # ds"
    then have "Suc (length ds) = length (skip_ws s)" by simp
    with ws[of s] show "Suc (length ds) \<le> length s" by simp
  qed
  show ?thesis
    apply (relation "measure (\<lambda>x. case x of
        Inl s \<Rightarrow> 2 * length s
      | Inr (Inl (pairs, s)) \<Rightarrow> 2 * length s + 1
      | Inr (Inr (acc, s)) \<Rightarrow> 2 * length s + 1)")
         apply simp_all
    subgoal for c cs x21 x22
      using wc[of cs "CHR 0x22" x22] by simp
    subgoal for c cs x21 x22
      using wc[of cs x21 x22] by simp
    subgoal for s b x y x21 x22
      using wc[of y "CHR '':''" x22] ws[of x22] by simp
    subgoal for s b x y x21 x22 ba xa ya x21a x22a x21b x22b
      using wc[of y "CHR '':''" x22] ws[of x22] wc[of ya "CHR '',''" x22a]
        wc[of x22a "CHR 0x22" x22b] by simp
    subgoal for s b x y x21 x22
      using wc[of y "CHR '',''" x22] ws[of x22] by simp
    done
qed

declare scan_once.simps [simp del] parse_object.simps [simp del] parse_array.simps [simp del]

definition json_error :: "string \<Rightarrow> string \<Rightarrow> nat \<Rightarrow> exn" where
  \<comment> \<open>\<open>JSONDecodeError(msg, doc, pos)\<close> with its text
      \<open>msg: line l column c (char pos)\<close>\<close>
  "json_error msg doc pos =
     (let seen = take pos doc;
          lineno = length (filter (\<lambda>c. c = CHR 0x0A) seen) + 1;
          colno = length (takeWhile (\<lambda>c. c \<noteq> CHR 0x0A) (rev seen)) + 1
      in Exn ''JSONDecodeError''
           (msg @ '': line '' @ str_nat lineno @ '' column '' @ str_nat colno
              @ '' (char '' @ str_nat pos @ '')''))"

definition json_loads :: "string \<Rightarrow> exn + json" where
  \<comment> \<open>\<open>json.loads(s)\<close>\<close>
  "json_loads s =
     (case scan_once (skip_ws s) of
        Inl (msg, left) \<Rightarrow> Inl (json_error msg s (length s - left))
      | Inr (v, r) \<Rightarrow>
          if skip_ws r = [] then Inr v
          else Inl (json_error ''Extra data'' s (length s - length (skip_ws r))))"

section \<open>The text extractor\<close>

text \<open>
  What PyPDF2 makes of a file is given, not computed: opening the file or building the
  reader either raises or yields the pages, and \<open>extract_text\<close> on a page either raises
  or returns a text or \<open>None\<close>. The file system maps a path to that outcome; a path
  with no file raises on \<open>open\<close>.
\<close>

type_synonym page = "exn + string option"

type_synonym pdf = "exn + page list"

definition or_empty :: "string option \<Rightarrow> string" where
  \<comment> \<open>\<open>t or ""\<close>\<close>
  "or_empty t = (case t of None \<Rightarrow> [] | Some s \<Rightarrow> if s = [] then [] else s)"

fun extract_pages :: "string \<Rightarrow> page list \<Rightarrow> exn + string" where
  \<comment> \<open>the loop over \<open>reader.pages\<close>, from the text gathered so far\<close>
  "extract_pages text [] = Inr text"
| "extract_pages text (p # ps) =
     (case p of
        Inl e \<Rightarrow> Inl e
      | Inr t \<Rightarrow> extract_pages (text @ or_empty t) ps)"

definition open_pdf :: "(string \<rightharpoonup> pdf) \<Rightarrow> string \<Rightarrow> pdf" where
  "open_pdf fs filepath =
     (case fs filepath of
        None \<Rightarrow> Inl (Exn ''FileNotFoundError'' (''No such file or directory: '' @ filepath))
      | Some f \<Rightarrow> f)"

definition extract_text_from_pdf :: "(string \<rightharpoonup> pdf) \<Rightarrow> string \<Rightarrow> string" where
  "extract_text_from_pdf fs filepath =
     (case open_pdf fs filepath of
        Inl e \<Rightarrow> []
      | Inr pages \<Rightarrow>
          (case extract_pages [] pages of
             Inl e \<Rightarrow> []
           | Inr text \<Rightarrow> text))"

section \<open>The application state\<close>

record ats_scan =
  scan_user_id :: nat
  scan_score :: json
  scan_data :: json
  \<comment> \<open>the column holds \<open>json.dumps(result)\<close>; the value itself is kept here\<close>

record resume =
  resume_user_id :: nat
  resume_full_name :: string
  resume_email :: "string option"
  resume_phone :: "string option"
  resume_linkedin :: "string option"
  resume_summary :: string
  resume_skills :: string
  resume_experience :: "string option"
  resume_education :: string

record world =
  engine_log :: "string list"
  \<comment> \<open>the prompts sent to the reasoning engine, oldest first\<close>
  flashes :: "(string \<times> string) list"
  db_scans :: "ats_scan list"
  db_resumes :: "resume list"
  fs :: "string \<rightharpoonup> pdf"

record env =
  generate_content :: "string \<Rightarrow> exn + string"
  \<comment> \<open>the reasoning engine: building the model, \<open>generate_content(prompt)\<close> and reading
      \<open>.text\<close> either raise or give the reply text\<close>
  secure_filename :: "string \<Rightarrow> string"
  db_commit :: "exn option"
  \<comment> \<open>the exception \<open>db.session.commit()\<close> raises, if it does\<close>
  current_user_id :: nat

record upload =
  filename :: string
  content :: pdf

record request =
  req_method :: string
  req_url :: string
  req_form :: "string \<rightharpoonup> string"
  req_files :: "string \<rightharpoonup> upload"

datatype response =
    Redirect string
  | RedirectResumeView nat
  | RenderTemplate string "json option"

definition flash :: "string \<Rightarrow> string \<Rightarrow> world \<Rightarrow> world" where
  "flash message category w = w\<lparr>flashes := flashes w @ [(message, category)]\<rparr>"

definition NL :: string where
  "NL = [CHR 0x0A]"

definition truthy :: "string option \<Rightarrow> bool" where
  \<comment> \<open>the truth value of a form field: neither \<open>None\<close> nor empty\<close>
  "truthy x = (case x of None \<Rightarrow> False | Some s \<Rightarrow> s \<noteq> [])"

definition fmt :: "string option \<Rightarrow> string" where
  \<comment> \<open>how an f-string renders a form field\<close>
  "fmt x = (case x of None \<Rightarrow> ''None'' | Some s \<Rightarrow> s)"

section \<open>The analysis\<close>

definition ats_prompt :: "string \<Rightarrow> string \<Rightarrow> string" where
  \<open>ats_prompt resume_text job_desc =
     NL @ ''        Act as a strict Senior Technical Recruiter & ATS System.'' @ NL @
       ''        Analyze this resume against the JD.'' @ NL @ ''        '' @ NL @
       ''        Strictly check for:'' @ NL @ ''        1. Grammar/Spelling Errors.'' @ NL @
       ''        2. Missing Keywords.'' @ NL @ ''        3. Formatting Issues.'' @ NL @
       ''        '' @ NL @ ''        Output PURE JSON:'' @ NL @ ''        {'' @ NL @
       ''            "score": <0-100>,'' @ NL @
       ''            "summary": "<Short strict feedback>",'' @ NL @
       ''            "grammar_errors": ["<error 1>", "<error 2>"],'' @ NL @
       ''            "missing_keywords": ["<keyword 1>", "<keyword 2>"],'' @ NL @
       ''            "improvements": ["<actionable advice 1>", "<advice 2>"]'' @ NL @
       ''        }'' @ NL @ NL @ ''        RESUME: '' @ take 4000 resume_text @ NL @
       ''        JOB DESCRIPTION: '' @ take 1000 job_desc @ NL @ ''        ''\<close>

definition clean_json :: "string \<Rightarrow> string" where
  \<comment> \<open>\<open>text.replace('```json', '').replace('```', '').strip()\<close>\<close>
  "clean_json text = strip (replace ''```'' [] (replace ''```json'' [] text))"

definition failure_result :: "exn \<Rightarrow> json" where
  \<comment> \<open>the dictionary built in the \<open>except\<close> branch\<close>
  "failure_result e =
     JDict [(''score'', JInt 0),
            (''summary'', JStr (''AI Analysis Failed. Error: '' @ exn_str e)),
            (''grammar_errors'', JList []),
            (''missing_keywords'', JList []),
            (''improvements'', JList [JStr ''Check API Key or Internet connection.''])]"

definition analyze_with_gemini :: "env \<Rightarrow> string \<Rightarrow> string \<Rightarrow> world \<Rightarrow> json \<times> world" where
  "analyze_with_gemini env resume_text job_desc w =
     (let prompt = ats_prompt resume_text job_desc;
          w' = w\<lparr>engine_log := engine_log w @ [prompt]\<rparr>
      in case generate_content env prompt of
           Inl e \<Rightarrow> (failure_result e, w')
         | Inr text \<Rightarrow>
             (case json_loads (clean_json text) of
                Inl e \<Rightarrow> (failure_result e, w')
              | Inr v \<Rightarrow> (v, w')))"

section \<open>The routes\<close>

definition dict_get :: "json \<Rightarrow> string \<Rightarrow> json \<Rightarrow> exn + json" where
  \<comment> \<open>\<open>result.get(key, default)\<close>; only a \<open>dict\<close> has the method\<close>
  "dict_get result key dflt =
     (case result of
        JDict d \<Rightarrow> (case map_of d key of None \<Rightarrow> Inr dflt | Some v \<Rightarrow> Inr v)
      | _ \<Rightarrow> Inl (Exn ''AttributeError'' ''object has no attribute 'get' ''))"

definition save_scan :: "env \<Rightarrow> json \<Rightarrow> world \<Rightarrow> world" where
  \<comment> \<open>the \<open>try\<close> block that stores the scan; an exception is logged and dropped\<close>
  "save_scan env result w =
     (case dict_get result ''score'' (JInt 0) of
        Inl e \<Rightarrow> w
      | Inr score \<Rightarrow>
          (case db_commit env of
             Some e \<Rightarrow> w
           | None \<Rightarrow>
               w\<lparr>db_scans := db_scans w
                    @ [\<lparr>scan_user_id = current_user_id env, scan_score = score,
                        scan_data = result\<rparr>]\<rparr>))"

definition ats_tool :: "env \<Rightarrow> request \<Rightarrow> world \<Rightarrow> response \<times> world" where
  \<comment> \<open>writing the upload to disk and removing it afterwards are taken to succeed\<close>
  "ats_tool env req w =
     (if req_method req = ''POST'' then
        (case req_files req ''resume'' of
           None \<Rightarrow> (Redirect (req_url req), flash ''No file part'' ''danger'' w)
         | Some file \<Rightarrow>
             let jd = req_form req ''jd'' in
             if filename file = [] then
               (Redirect (req_url req), flash ''No selected file'' ''danger'' w)
             else if truthy jd then
               (let filepath = ''static/uploads/'' @ secure_filename env (filename file);
                    w1 = w\<lparr>fs := (fs w)(filepath \<mapsto> content file)\<rparr>;
                    text = extract_text_from_pdf (fs w1) filepath;
                    (result, w2) =
                      (if text = [] then
                         (None,
                          flash ''Could not read PDF. Make sure it contains text.'' ''warning'' w1)
                       else
                         (let (r, w') = analyze_with_gemini env text (the jd) w1
                          in (Some r, save_scan env r w')));
                    w3 = w2\<lparr>fs := (fs w2)(filepath := None)\<rparr>
                in (RenderTemplate ''tools/ats.html'' result, w3))
             else (RenderTemplate ''tools/ats.html'' None, w))
      else (RenderTemplate ''tools/ats.html'' None, w))"

definition summary_prompt :: "string \<Rightarrow> string \<Rightarrow> string \<Rightarrow> string \<Rightarrow> string" where
  "summary_prompt full_name formatted_skills degree college =
     NL @ ''                Write a professional 3-line resume summary for a fresher named '' @
       full_name @ ''.'' @ NL @ ''                Skills: '' @ formatted_skills @ NL @
       ''                Education: '' @ degree @ '' from '' @ college @ NL @
       ''                Keep it impactful and professional.'' @ NL @ ''                ''"

definition fallback_summary :: string where
  "fallback_summary = ''Passionate student looking for opportunities to apply skills and grow.''"

definition build_resume :: "env \<Rightarrow> request \<Rightarrow> world \<Rightarrow> resume \<times> world" where
  \<comment> \<open>steps 1 to 4 of \<open>resume_builder\<close> and the record of step 5, before it is stored\<close>
  "build_resume env req w =
     (let full_name = smart_format_text (req_form req ''full_name'');
          degree = smart_format_text (req_form req ''edu_degree'');
          college = smart_format_text (req_form req ''edu_college'');
          year = req_form req ''edu_year'';
          grade = req_form req ''edu_grade'';
          formatted_education =
            degree @ NL @ college @ NL @ ''Year: '' @ fmt year @ '' | Grade: '' @ fmt grade;
          raw_skills = req_form req ''skills'';
          formatted_skills = smart_format_skills raw_skills;
          experience = req_form req ''experience'';
          summary = req_form req ''summary'';
          (summary', w') =
            (if \<not> truthy summary \<or> strip (the summary) = [] then
               (let prompt = summary_prompt full_name formatted_skills degree college
                in (case generate_content env prompt of
                      Inl e \<Rightarrow> fallback_summary
                    | Inr reply \<Rightarrow> strip reply,
                    w\<lparr>engine_log := engine_log w @ [prompt]\<rparr>))
             else (the summary, w))
      in (\<lparr>resume_user_id = current_user_id env,
           resume_full_name = full_name,
           resume_email = req_form req ''email'',
           resume_phone = req_form req ''phone'',
           resume_linkedin = req_form req ''linkedin'',
           resume_summary = summary',
           resume_skills = formatted_skills,
           resume_experience = experience,
           resume_education = formatted_education\<rparr>, w'))"

definition resume_builder :: "env \<Rightarrow> request \<Rightarrow> world \<Rightarrow> exn + response \<times> world" where
  \<comment> \<open>the commit is not guarded: its exception leaves the function\<close>
  "resume_builder env req w =
     (if req_method req = ''POST'' then
        (let (new_resume, w') = build_resume env req w
         in case db_commit env of
              Some e \<Rightarrow> Inl e
            | None \<Rightarrow>
                Inr (RedirectResumeView (Suc (length (db_resumes w'))),
                     w'\<lparr>db_resumes := db_resumes w' @ [new_resume]\<rparr>))
      else Inr (RenderTemplate ''tools/resume_builder.html'' None, w))"

section \<open>Sample environments\<close>

definition stub_env :: "exn + string \<Rightarrow> env" where
  \<comment> \<open>an engine with the same outcome for every prompt, a file-name sanitiser that
      changes nothing, a database that commits, and user 1\<close>
  "stub_env outcome =
     \<lparr>generate_content = (\<lambda>prompt. outcome), secure_filename = (\<lambda>name. name),
      db_commit = None, current_user_id = 1\<rparr>"

definition empty_world :: world where
  "empty_world =
     \<lparr>engine_log = [], flashes = [], db_scans = [], db_resumes = [], fs = Map.empty\<rparr>"

definition scan_request :: "pdf \<Rightarrow> request" where
  \<comment> \<open>a scan request: the upload \<open>cv.pdf\<close> with the given content and a job description\<close>
  "scan_request doc =
     \<lparr>req_method = ''POST'', req_url = ''/tools/ats'',
      req_form = [''jd'' \<mapsto> ''Looking for Go developer''],
      req_files = [''resume'' \<mapsto> \<lparr>filename = ''cv.pdf'', content = doc\<rparr>]\<rparr>"

definition draft_request :: "string option \<Rightarrow> request" where
  \<comment> \<open>a resume form with the given summary field\<close>
  "draft_request s =
     \<lparr>req_method = ''POST'', req_url = ''/tools/resume-builder'',
      req_form = (\<lambda>k. if k = ''summary'' then s
                       else if k = ''full_name'' then Some ''asha rao''
                       else if k = ''skills'' then Some ''python, go''
                       else None),
      req_files = Map.empty\<rparr>"

section \<open>Properties of the string operations\<close>

lemma replace_absent:
  "\<not> sublist (a # as) s \<Longrightarrow> replace (a # as) new s = s"
proof (induction s)
  case Nil
  then show ?case by simp
next
  case (Cons c cs)
  from Cons.prems have np: "\<not> prefix (a # as) (c # cs)"
    by (simp add: sublist_Cons_right)
  from Cons.prems have "\<not> sublist (a # as) cs"
    by (simp add: sublist_Cons_right)
  with Cons.IH np show ?case by auto
qed

lemma replace_append:
  assumes b: "b \<notin> set as"
  shows "replace (a # as) new (x @ b # y) = replace (a # as) new x @ replace (a # as) new (b # y)"
proof -
  define t where "t = replace (a # as) new (b # y)"
  have "replace (a # as) new (x @ b # y) = replace (a # as) new x @ t"
  proof (induction x rule: length_induct)
    case (1 x)
    show ?case
    proof (cases x)
      case Nil
      then show ?thesis unfolding t_def by (simp only: append_Nil replace.simps)
    next
      case (Cons c cs)
      show ?thesis
      proof (cases "prefix (a # as) (c # cs)")
        case True
        then have len: "length as \<le> length cs"
          by (auto dest: prefix_length_le)
        from True have pre: "prefix (a # as) (c # cs @ b # y)"
          by (auto simp: prefix_def)
        have "length (drop (length as) cs) < length x"
          using Cons by simp
        with "1.IH" have "replace (a # as) new (drop (length as) cs @ b # y)
            = replace (a # as) new (drop (length as) cs) @ t"
          by blast
        with True pre len Cons show ?thesis by simp
      next
        case False
        have "\<not> prefix (a # as) (c # cs @ b # y)"
        proof
          assume "prefix (a # as) (c # cs @ b # y)"
          then have ac: "a = c" and "prefix as (cs @ b # y)" by simp_all
          then consider "prefix as cs" | us where "as = cs @ us" "prefix us (b # y)"
            by (auto simp: prefix_append)
          then show False
          proof cases
            case 1
            with ac False show False by simp
          next
            case 2
            show False
            proof (cases us)
              case Nil
              with 2 ac False show False by simp
            next
              case (Cons u us')
              with 2 have "u = b" by simp
              with 2 Cons b show False by simp
            qed
          qed
        qed
        moreover have "length cs < length x" using Cons by simp
        with "1.IH" have "replace (a # as) new (cs @ b # y) = replace (a # as) new cs @ t"
          by blast
        ultimately show ?thesis using False Cons by auto
      qed
    qed
  qed
  then show ?thesis unfolding t_def .
qed

lemma rep_Uni_comma:
  "replace '' Uni'' '' University'' (a @ '' Uni,'' @ r)
     = replace '' Uni'' '' University'' a @ '' University,'' @ replace '' Uni'' '' University'' r"
proof -
  have "replace '' Uni'' '' University'' (a @ CHR '' '' # (''Uni,'' @ r))
     = replace '' Uni'' '' University'' a @ replace '' Uni'' '' University'' (CHR '' '' # (''Uni,'' @ r))"
    by (rule replace_append) simp
  then show ?thesis by simp
qed

lemma sublist_Uni_space: "sublist '' Uni '' s \<Longrightarrow> sublist '' Uni'' s"
proof -
  assume "sublist '' Uni '' s"
  moreover have "sublist '' Uni'' '' Uni ''"
    by (rule prefix_imp_sublist) simp
  ultimately show ?thesis
    using sublist_order.order_trans by blast
qed

lemma smart_format_text_absent:
  assumes "\<not> sublist '' Uni'' (title (strip t))"
  shows "smart_format_text (Some t) = title (strip t)"
proof (cases "t = []")
  case True
  then show ?thesis by (simp add: smart_format_text_def title_def strip_def)
next
  case False
  from assms have "\<not> sublist '' Uni '' (title (strip t))"
    using sublist_Uni_space by blast
  then have "replace '' Uni '' '' University '' (title (strip t)) = title (strip t)"
    by (rule replace_absent)
  moreover have "replace '' Uni'' '' University'' (title (strip t)) = title (strip t)"
    using assms by (rule replace_absent)
  ultimately show ?thesis using False by (simp add: smart_format_text_def)
qed

lemma smart_format_text_leading:
  assumes "title (strip t) = ''Uni'' @ r"
  shows "smart_format_text (Some t)
       = ''Uni'' @ replace '' Uni'' '' University'' (replace '' Uni '' '' University '' r)"
proof -
  have "t \<noteq> []" using assms by (auto simp: title_def strip_def)
  then show ?thesis using assms by (simp add: smart_format_text_def)
qed



lemma fragments_no_delim:
  "\<forall>c\<in>set a. \<not> is_delim c \<Longrightarrow> fragments a = [a]"
  by (induction a) auto

lemma fragments_cut:
  "\<forall>c\<in>set a. \<not> is_delim c \<Longrightarrow> is_delim d \<Longrightarrow> fragments (a @ d # ds) = a # fragments ds"
  by (induction a) auto

lemma fragments_skip:
  "filter (\<lambda>f. f \<noteq> []) (fragments (dropWhile is_delim ds)) = filter (\<lambda>f. f \<noteq> []) (fragments ds)"
  by (induction ds) auto

lemma re_split_fragments:
  "filter (\<lambda>f. f \<noteq> []) (re_split s) = filter (\<lambda>f. f \<noteq> []) (fragments s)"
proof (induction s rule: re_split.induct)
  case (1 s)
  let ?a = "takeWhile (\<lambda>c. \<not> is_delim c) s"
  have a: "\<forall>c\<in>set ?a. \<not> is_delim c"
    by (auto dest: set_takeWhileD)
  show ?case
  proof (cases "dropWhile (\<lambda>c. \<not> is_delim c) s")
    case Nil
    then have "\<forall>c\<in>set s. \<not> is_delim c" by (simp add: dropWhile_eq_Nil_conv)
    then have "fragments s = [s]" by (rule fragments_no_delim)
    moreover have "re_split s = [s]" using Nil by (subst re_split.simps) (simp del: dropWhile_eq_Nil_conv)
    ultimately show ?thesis by simp
  next
    case (Cons d ds)
    then have d: "is_delim d" using hd_dropWhile[of "\<lambda>c. \<not> is_delim c" s] by auto
    have s: "s = ?a @ d # ds" using Cons takeWhile_dropWhile_id[of "\<lambda>c. \<not> is_delim c" s] by simp
    have "fragments s = ?a # fragments ds"
      using fragments_cut[OF a d, of ds] s by simp
    moreover have "re_split s = ?a # re_split (dropWhile is_delim ds)"
      using Cons by (subst re_split.simps) simp
    moreover have "filter (\<lambda>f. f \<noteq> []) (re_split (dropWhile is_delim ds))
        = filter (\<lambda>f. f \<noteq> []) (fragments (dropWhile is_delim ds))"
      using "1.IH"[OF Cons] .
    ultimately show ?thesis by (simp add: fragments_skip)
  qed
qed

lemma re_split_no_delim: "p \<in> set (re_split s) \<Longrightarrow> c \<in> set p \<Longrightarrow> \<not> is_delim c"
proof (induction s rule: re_split.induct)
  case (1 s)
  show ?case
  proof (cases "dropWhile (\<lambda>c. \<not> is_delim c) s")
    case Nil
    then have "\<forall>c\<in>set s. \<not> is_delim c" by (simp add: dropWhile_eq_Nil_conv)
    moreover have "re_split s = [s]" using Nil by (subst re_split.simps) (simp del: dropWhile_eq_Nil_conv)
    ultimately show ?thesis using "1.prems" by simp
  next
    case (Cons d ds)
    have "re_split s = takeWhile (\<lambda>c. \<not> is_delim c) s # re_split (dropWhile is_delim ds)"
      using Cons by (subst re_split.simps) simp
    with "1.prems" "1.IH"[OF Cons] show ?thesis
      by (auto dest: set_takeWhileD)
  qed
qed

lemma dropWhile_none: "\<forall>x\<in>set xs. \<not> P x \<Longrightarrow> dropWhile P xs = xs"
  by (cases xs) auto

lemma strip_no_space: "\<forall>c\<in>set p. \<not> is_space c \<Longrightarrow> strip p = p"
  by (simp add: strip_def dropWhile_none)

lemma strip_piece: "p \<in> set (re_split s) \<Longrightarrow> strip p = p"
  by (rule strip_no_space) (auto dest: re_split_no_delim simp: is_delim_def)

lemma smart_format_skills_refines:
  "smart_format_skills (Some s) = normalize_skill_list_spec s"
proof (cases "s = []")
  case True
  then show ?thesis by (simp add: smart_format_skills_def normalize_skill_list_spec_def)
next
  case False
  have "filter (\<lambda>p. strip p \<noteq> []) (re_split s) = filter (\<lambda>p. p \<noteq> []) (re_split s)"
    by (rule filter_cong) (simp_all add: strip_piece)
  then show ?thesis using False
    by (simp add: smart_format_skills_def normalize_skill_list_spec_def re_split_fragments)
qed


section \<open>Properties of the decoder\<close>

lemma skip_ws_le: "length (skip_ws s) \<le> length s"
  by (simp add: skip_ws_def length_dropWhile_le)

lemma skip_ws_cons: "skip_ws s = d # ds \<Longrightarrow> length ds < length s"
proof -
  assume "skip_ws s = d # ds"
  then have "Suc (length ds) = length (skip_ws s)" by simp
  with skip_ws_le[of s] show ?thesis by simp
qed

lemma match_fraction_le: "match_fraction s = (f, r) \<Longrightarrow> length r \<le> length s"
  by (auto simp: match_fraction_def split: list.splits if_splits
      intro: le_trans[OF length_dropWhile_le])

lemma match_exponent_le: "match_exponent s = (f, r) \<Longrightarrow> length r \<le> length s"
proof (cases s)
  case Nil
  assume "match_exponent s = (f, r)"
  with Nil show ?thesis by (simp add: match_exponent_def)
next
  case (Cons e cs)
  assume m: "match_exponent s = (f, r)"
  have h: "\<And>n. length (dropWhile is_digit (drop n cs)) \<le> Suc (length cs)"
    by (rule le_trans[OF length_dropWhile_le]) simp
  from m Cons show ?thesis
    by (auto simp: match_exponent_def Let_def h split: if_splits)
qed

lemma match_number_shorter:
  assumes "match_number s = Some (v, r)"
  shows "length r < length s"
proof -
  define neg where "neg = (s \<noteq> [] \<and> hd s = CHR ''-'')"
  define t where "t = (if neg then tl s else s)"
  have ts: "length t \<le> length s"
    by (simp add: t_def)
  from assms obtain d ds where t: "t = d # ds"
    unfolding match_number_def neg_def[symmetric] Let_def t_def[symmetric]
    by (auto split: list.splits)
  define r1 where "r1 = (if d = CHR ''0'' then ds else dropWhile is_digit ds)"
  have r1: "length r1 \<le> length ds"
    by (simp add: r1_def length_dropWhile_le)
  from assms t obtain f r2 x where f: "match_fraction r1 = (f, r2)"
    and x: "match_exponent r2 = (x, r)"
    unfolding match_number_def neg_def[symmetric] Let_def t_def[symmetric] r1_def
    by (auto split: if_splits prod.splits)
  with match_fraction_le[OF f] match_exponent_le[OF x] r1 t ts show ?thesis
    by simp
qed

lemma scanstring_shorter_aux:
  "\<forall>b acc k r. scanstring b acc s = Inr (k, r) \<longrightarrow> length r < length s"
proof (induction s rule: length_induct)
  case (1 s)
  then have IH: "\<And>t b acc k r. length t < length s \<Longrightarrow> scanstring b acc t = Inr (k, r)
      \<Longrightarrow> length r < length t"
    by blast
  show ?case
  proof (intro allI impI)
    fix b acc k r
    assume eq: "scanstring b acc s = Inr (k, r)"
    show "length r < length s"
    proof (cases s)
      case Nil
      with eq show ?thesis by simp
    next
      case s: (Cons c cs)
      show ?thesis
      proof (cases "c = CHR 0x22")
        case True
        with eq s show ?thesis by simp
      next
        case nq: False
        show ?thesis
        proof (cases "c = CHR 0x5C")
          case False
          with eq s nq obtain acc' where "scanstring b acc' cs = Inr (k, r)"
            by (auto split: if_splits)
          with IH[of cs] s show ?thesis by fastforce
        next
          case bs: True
          show ?thesis
          proof (cases cs)
            case Nil
            with eq s nq bs show ?thesis by simp
          next
            case cs: (Cons e es)
            from eq s nq bs cs obtain acc' n where "scanstring b acc' (drop n es) = Inr (k, r)"
              by (auto split: if_splits sum.splits option.splits intro: that[where n = 0])
            moreover have "length (drop n es) < length s"
              using s cs by simp
            ultimately have "length r < length (drop n es)"
              using IH by blast
            then show ?thesis using s cs by simp
          qed
        qed
      qed
    qed
  qed
qed

lemma scanstring_shorter: "scanstring b acc s = Inr (k, r) \<Longrightarrow> length r < length s"
  using scanstring_shorter_aux by blast

lemma unicode_escape_error: "unicode_escape es = Inl (m, n) \<Longrightarrow> m \<noteq> ''no progress''"
  by (auto simp: unicode_escape_def bad_u_escape_def split: if_splits option.splits)

lemma scanstring_error_aux:
  "\<forall>b acc m n. scanstring b acc s = Inl (m, n) \<longrightarrow> m \<noteq> ''no progress''"
proof (induction s rule: length_induct)
  case (1 s)
  then have IH: "\<And>t b acc m n. length t < length s \<Longrightarrow> scanstring b acc t = Inl (m, n)
      \<Longrightarrow> m \<noteq> ''no progress''"
    by blast
  show ?case
  proof (intro allI impI)
    fix b acc m n
    assume eq: "scanstring b acc s = Inl (m, n)"
    show "m \<noteq> ''no progress''"
    proof (cases s)
      case Nil
      with eq show ?thesis by auto
    next
      case s: (Cons c cs)
      show ?thesis
      proof (cases "c = CHR 0x22")
        case True
        with eq s show ?thesis by simp
      next
        case nq: False
        show ?thesis
        proof (cases "c = CHR 0x5C")
          case False
          with eq s nq consider "m = ''Invalid control character at''"
            | acc' where "scanstring b acc' cs = Inl (m, n)"
            by (auto split: if_splits)
          then show ?thesis
          proof cases
            case 1
            then show ?thesis by simp
          next
            case 2
            with IH[of cs] s show ?thesis by fastforce
          qed
        next
          case bs: True
          show ?thesis
          proof (cases cs)
            case Nil
            with eq s nq bs show ?thesis by auto
          next
            case cs: (Cons e es)
            from eq s nq bs cs consider "unicode_escape es = Inl (m, n)"
              | "m = ''Invalid '' @ [CHR 0x5C] @ ''escape''"
              | acc' k where "scanstring b acc' (drop k es) = Inl (m, n)"
              by (auto split: if_splits sum.splits option.splits intro: that(3)[where k = 0])
            then show ?thesis
            proof cases
              case 1
              then show ?thesis by (rule unicode_escape_error)
            next
              case 2
              then show ?thesis by simp
            next
              case 3
              moreover have "length (drop k es) < length s"
                using s cs by simp
              ultimately show ?thesis
                using IH by blast
            qed
          qed
        qed
      qed
    qed
  qed
qed

lemma scanstring_error: "scanstring b acc s = Inl (m, n) \<Longrightarrow> m \<noteq> ''no progress''"
  using scanstring_error_aux by blast

lemma literal_chain:
  assumes "\<And>v r. mn = Some (v, r) \<Longrightarrow> length r < length (c # cs)"
  shows "(\<forall>v r.
        (if p1 then Inr (JNull, drop 3 cs)
         else if p2 then Inr (JBool True, drop 3 cs)
         else if p3 then Inr (JBool False, drop 4 cs)
         else
           (case mn of
              Some (v, r) \<Rightarrow> Inr (v, r)
            | None \<Rightarrow>
                if p4 then Inr (JFloat ''NaN'', drop 2 cs)
                else if p5 then Inr (JFloat ''Infinity'', drop 7 cs)
                else if p6 then Inr (JFloat ''-Infinity'', drop 8 cs)
                else Inl (''Expecting value'', Suc (length cs)))) = Inr (v, r)
        \<longrightarrow> length r < length (c # cs))
     \<and> (\<forall>n.
        (if p1 then Inr (JNull, drop 3 cs)
         else if p2 then Inr (JBool True, drop 3 cs)
         else if p3 then Inr (JBool False, drop 4 cs)
         else
           (case mn of
              Some (v, r) \<Rightarrow> Inr (v, r)
            | None \<Rightarrow>
                if p4 then Inr (JFloat ''NaN'', drop 2 cs)
                else if p5 then Inr (JFloat ''Infinity'', drop 7 cs)
                else if p6 then Inr (JFloat ''-Infinity'', drop 8 cs)
                else Inl (''Expecting value'', Suc (length cs)))) \<noteq> Inl (''no progress'', n))"
proof (cases mn)
  case None
  then show ?thesis by (simp add: less_Suc_eq_le)
next
  case (Some a)
  obtain v r where "a = (v, r)" by (cases a)
  with Some assms[of v r] show ?thesis by (simp add: less_Suc_eq_le)
qed

lemma decoder_progress:
  "(\<forall>v r. scan_once s = Inr (v, r) \<longrightarrow> length r < length s)
     \<and> (\<forall>n. scan_once s \<noteq> Inl (''no progress'', n))"
  "(\<forall>v r. parse_object pairs t = Inr (v, r) \<longrightarrow> length r < length t)
     \<and> (\<forall>n. parse_object pairs t \<noteq> Inl (''no progress'', n))"
  "(\<forall>v r. parse_array acc u = Inr (v, r) \<longrightarrow> length r < length u)
     \<and> (\<forall>n. parse_array acc u \<noteq> Inl (''no progress'', n))"
proof (induction s and pairs t and acc u rule: scan_once_parse_object_parse_array.induct)
  case 1
  show ?case by (simp add: scan_once.simps)
next
  case (2 c cs)
  show ?case
  proof (cases "c = CHR 0x22")
    case True
    then have e: "scan_once (c # cs)
        = (case scanstring (Suc (length cs)) [] cs of
             Inl e \<Rightarrow> Inl e
           | Inr (str, r) \<Rightarrow> Inr (JStr str, r))"
      by (simp add: scan_once.simps)
    show ?thesis
      unfolding e
      by (auto split: sum.splits dest: scanstring_shorter scanstring_error)
  next
    case nq: False
    show ?thesis
    proof (cases "c = CHR ''{''")
      case ob: True
      show ?thesis
      proof (cases "skip_ws cs")
        case Nil
        with nq ob show ?thesis by (simp add: scan_once.simps)
      next
        case (Cons d ds)
        then have l: "length ds < length cs"
          by (rule skip_ws_cons)
        show ?thesis
        proof (cases "d = CHR ''}''")
          case True
          with nq ob Cons l show ?thesis by (simp add: scan_once.simps)
        next
          case nb: False
          show ?thesis
          proof (cases "d = CHR 0x22")
            case True
            with nq ob Cons nb have e: "scan_once (c # cs) = parse_object [] ds"
              by (simp add: scan_once.simps)
            from "2.IH"(1)[OF nq ob Cons nb True] l show ?thesis
              unfolding e by auto
          next
            case False
            with nq ob Cons nb show ?thesis by (simp add: scan_once.simps)
          qed
        qed
      qed
    next
      case no: False
      show ?thesis
      proof (cases "c = CHR ''[''")
        case ar: True
        show ?thesis
        proof (cases "skip_ws cs")
          case Nil
          with nq no ar have e: "scan_once (c # cs) = parse_array [] []"
            by (simp add: scan_once.simps)
          from "2.IH"(2)[OF nq no ar Nil] show ?thesis
            unfolding e by auto
        next
          case (Cons d ds)
          then have l: "length ds < length cs"
            by (rule skip_ws_cons)
          show ?thesis
          proof (cases "d = CHR '']''")
            case True
            with nq no ar Cons l show ?thesis by (simp add: scan_once.simps)
          next
            case False
            with nq no ar Cons have e: "scan_once (c # cs) = parse_array [] (d # ds)"
              by (simp add: scan_once.simps)
            from "2.IH"(3)[OF nq no ar Cons False] l show ?thesis
              unfolding e by auto
          qed
        qed
      next
        case na: False
        from nq no na have e: "scan_once (c # cs) =
          (if prefix ''null'' (c # cs) then Inr (JNull, drop 3 cs)
           else if prefix ''true'' (c # cs) then Inr (JBool True, drop 3 cs)
           else if prefix ''false'' (c # cs) then Inr (JBool False, drop 4 cs)
           else
             (case match_number (c # cs) of
                Some (v, r) \<Rightarrow> Inr (v, r)
              | None \<Rightarrow>
                  if prefix ''NaN'' (c # cs) then Inr (JFloat ''NaN'', drop 2 cs)
                  else if prefix ''Infinity'' (c # cs) then Inr (JFloat ''Infinity'', drop 7 cs)
                  else if prefix ''-Infinity'' (c # cs) then Inr (JFloat ''-Infinity'', drop 8 cs)
                  else Inl (''Expecting value'', Suc (length cs))))"
          by (subst scan_once.simps) (simp only: if_False)
        show ?thesis
          unfolding e by (rule literal_chain) (rule match_number_shorter)
      qed
    qed
  qed
next
  case (3 pairs s)
  show ?case
  proof (cases "scanstring (Suc (length s)) [] s")
    case (Inl err)
    then have e: "parse_object pairs s = Inl err"
      by (subst parse_object.simps) simp
    from Inl show ?thesis
      unfolding e by (cases err) (auto dest: scanstring_error)
  next
    case (Inr b)
    obtain key r1 where b: "b = (key, r1)"
      by (cases b)
    with Inr have l1: "length r1 < length s"
      using scanstring_shorter by blast
    then have g1: "\<not> \<not> length r1 \<le> length s"
      by simp
    show ?thesis
    proof (cases "skip_ws r1")
      case Nil
      with Inr b l1 show ?thesis
        by (subst (1 2) parse_object.simps) simp
    next
      case r1: (Cons c r2)
      then have l2: "length r2 < length r1"
        by (rule skip_ws_cons)
      show ?thesis
      proof (cases "c = CHR '':''")
        case False
        with Inr b l1 r1 show ?thesis
          by (subst (1 2) parse_object.simps) simp
      next
        case colon: True
        then have nn: "\<not> c \<noteq> CHR '':''"
          by simp
        note P = "3.IH"(1)[OF Inr b[symmetric] g1 r1 nn]
        show ?thesis
        proof (cases "scan_once (skip_ws r2)")
          case (Inl err)
          with Inr b l1 r1 colon have e: "parse_object pairs s = Inl err"
            by (subst parse_object.simps) simp
          from Inl P show ?thesis
            unfolding e by (cases err) auto
        next
          case v: (Inr ba)
          obtain v r3 where ba: "ba = (v, r3)"
            by (cases ba)
          with v P have l3: "length r3 < length (skip_ws r2)"
            by simp
          then have g3: "\<not> \<not> length r3 \<le> length (skip_ws r2)"
            by simp
          have l3': "length r3 < length r2"
            using l3 skip_ws_le[of r2] by simp
          show ?thesis
          proof (cases "skip_ws r3")
            case Nil
            with Inr b l1 r1 colon v ba l3 show ?thesis
              by (subst (1 2) parse_object.simps) simp
          next
            case r3: (Cons d r4)
            then have l4: "length r4 < length r3"
              by (rule skip_ws_cons)
            show ?thesis
            proof (cases "d = CHR ''}''")
              case True
              with Inr b l1 r1 colon v ba l3 r3 l2 l3' l4 show ?thesis
                by (subst (1 2) parse_object.simps) simp
            next
              case ne: False
              show ?thesis
              proof (cases "d = CHR '',''")
                case False
                with Inr b l1 r1 colon v ba l3 r3 ne show ?thesis
                  by (subst (1 2) parse_object.simps) simp
              next
                case comma: True
                then have nc: "\<not> d \<noteq> CHR '',''"
                  by simp
                show ?thesis
                proof (cases "skip_ws r4")
                  case Nil
                  with Inr b l1 r1 colon v ba l3 r3 ne comma show ?thesis
                    by (subst (1 2) parse_object.simps) simp
                next
                  case r4: (Cons q r5)
                  then have l5: "length r5 < length r4"
                    by (rule skip_ws_cons)
                  show ?thesis
                  proof (cases "q = CHR 0x22")
                    case False
                    with Inr b l1 r1 colon v ba l3 r3 ne comma r4 show ?thesis
                      by (subst (1 2) parse_object.simps) simp
                  next
                    case True
                    then have nq: "\<not> q \<noteq> CHR 0x22"
                      by simp
                    from Inr b l1 r1 colon v ba l3 r3 ne comma r4 True
                    have e: "parse_object pairs s = parse_object (pairs @ [(key, v)]) r5"
                      by (subst parse_object.simps) simp
                    note Q = "3.IH"(2)[OF Inr b[symmetric] g1 r1 nn v ba[symmetric] g3 r3 ne nc r4 nq]
                    from Q l1 l2 l3' l4 l5 show ?thesis
                      unfolding e by auto
                  qed
                qed
              qed
            qed
          qed
        qed
      qed
    qed
  qed
next
  case (4 acc s)
  note P = "4.IH"(1)
  show ?case
  proof (cases "scan_once s")
    case (Inl err)
    then have e: "parse_array acc s = Inl err"
      by (subst parse_array.simps) simp
    from Inl P show ?thesis
      unfolding e by (cases err) auto
  next
    case (Inr b)
    obtain v r1 where b: "b = (v, r1)"
      by (cases b)
    with Inr P have l1: "length r1 < length s"
      by simp
    then have g1: "\<not> \<not> length r1 \<le> length s"
      by simp
    show ?thesis
    proof (cases "skip_ws r1")
      case Nil
      with Inr b l1 show ?thesis
        by (subst (1 2) parse_array.simps) simp
    next
      case r1: (Cons d r2)
      then have l2: "length r2 < length r1"
        by (rule skip_ws_cons)
      show ?thesis
      proof (cases "d = CHR '']''")
        case True
        with Inr b l1 r1 l2 show ?thesis
          by (subst (1 2) parse_array.simps) simp
      next
        case nb: False
        show ?thesis
        proof (cases "d = CHR '',''")
          case False
          with Inr b l1 r1 nb show ?thesis
            by (subst (1 2) parse_array.simps) simp
        next
          case True
          then have nc: "\<not> d \<noteq> CHR '',''"
            by simp
          from Inr b l1 r1 nb True
          have e: "parse_array acc s = parse_array (acc @ [v]) (skip_ws r2)"
            by (subst parse_array.simps) simp
          note R = "4.IH"(2)[OF Inr b[symmetric] g1 r1 nb nc]
          from R l1 l2 skip_ws_le[of r2] show ?thesis
            unfolding e by auto
        qed
      qed
    qed
  qed
qed

lemma no_progress_unreachable:
  "scan_once s \<noteq> Inl no_progress"
  "parse_object pairs s \<noteq> Inl no_progress"
  "parse_array acc s \<noteq> Inl no_progress"
  using decoder_progress by (simp_all add: no_progress_def)

section \<open>Properties of the extractor and the analysis\<close>

lemma extract_pages_texts:
  "extract_pages acc (map Inr ts) = Inr (acc @ concat (map or_empty ts))"
  by (induction ts arbitrary: acc) simp_all

lemma extract_pages_raise:
  "Inl e \<in> set pages \<Longrightarrow> \<exists>e'. extract_pages acc pages = Inl e'"
proof (induction pages arbitrary: acc)
  case Nil
  then show ?case by simp
next
  case (Cons p ps)
  then show ?case by (cases p) auto
qed

lemma analyze_engine_fails:
  "generate_content env (ats_prompt rt jd) = Inl e \<Longrightarrow>
   analyze_with_gemini env rt jd w
     = (failure_result e, w\<lparr>engine_log := engine_log w @ [ats_prompt rt jd]\<rparr>)"
  by (simp add: analyze_with_gemini_def)

lemma analyze_parse_fails:
  "generate_content env (ats_prompt rt jd) = Inr text \<Longrightarrow> json_loads (clean_json text) = Inl e \<Longrightarrow>
   analyze_with_gemini env rt jd w
     = (failure_result e, w\<lparr>engine_log := engine_log w @ [ats_prompt rt jd]\<rparr>)"
  by (simp add: analyze_with_gemini_def)

lemma analyze_parses:
  "generate_content env (ats_prompt rt jd) = Inr text \<Longrightarrow> json_loads (clean_json text) = Inr v \<Longrightarrow>
   analyze_with_gemini env rt jd w
     = (v, w\<lparr>engine_log := engine_log w @ [ats_prompt rt jd]\<rparr>)"
  by (simp add: analyze_with_gemini_def)

section \<open>Properties of the fence cleanup\<close>

lemma sublist_fence_json: "sublist ''```json'' s \<Longrightarrow> sublist ''```'' s"
proof -
  assume "sublist ''```json'' s"
  moreover have "sublist ''```'' ''```json''"
    by (rule prefix_imp_sublist) simp
  ultimately show ?thesis
    using sublist_order.order_trans by blast
qed

lemma replace_fence_none: "\<not> sublist ''```'' (replace ''```'' [] s)"
proof (induction s rule: length_induct)
  case (1 s)
  then have IH: "\<And>r. length r < length s \<Longrightarrow> \<not> sublist ''```'' (replace ''```'' [] r)"
    by blast
  show ?case
  proof (cases s)
    case Nil
    then show ?thesis by simp
  next
    case s: (Cons c cs)
    show ?thesis
    proof (cases "c = CHR 0x60")
      case False
      with s IH[of cs] show ?thesis
        by (simp add: sublist_Cons_right)
    next
      case c: True
      show ?thesis
      proof (cases cs)
        case Nil
        with s c show ?thesis
          by (simp add: sublist_Cons_right)
      next
        case cs: (Cons d ds)
        show ?thesis
        proof (cases "d = CHR 0x60")
          case False
          with s c cs IH[of ds] show ?thesis
            by (simp add: sublist_Cons_right)
        next
          case d: True
          show ?thesis
          proof (cases ds)
            case Nil
            with s c cs d show ?thesis
              by (simp add: sublist_Cons_right)
          next
            case ds: (Cons e es)
            show ?thesis
            proof (cases "e = CHR 0x60")
              case False
              with s c cs d ds IH[of es] show ?thesis
                by (simp add: sublist_Cons_right)
            next
              case True
              with s c cs d ds IH[of es] show ?thesis
                by simp
            qed
          qed
        qed
      qed
    qed
  qed
qed

lemma sublist_strip: "sublist (strip s) s"
proof -
  have "suffix (dropWhile is_space (rev (dropWhile is_space s))) (rev (dropWhile is_space s))"
    by (rule suffix_dropWhile)
  then have "prefix (strip s) (dropWhile is_space s)"
    by (simp add: strip_def suffix_to_prefix)
  moreover have "suffix (dropWhile is_space s) s"
    by (rule suffix_dropWhile)
  ultimately show ?thesis
    by (meson prefix_imp_sublist suffix_imp_sublist sublist_order.order_trans)
qed

lemma clean_json_no_fence: "\<not> sublist ''```'' (clean_json s)"
proof
  assume "sublist ''```'' (clean_json s)"
  then have "sublist ''```'' (strip (replace ''```'' [] (replace ''```json'' [] s)))"
    by (simp only: clean_json_def)
  then have "sublist ''```'' (replace ''```'' [] (replace ''```json'' [] s))"
    using sublist_strip sublist_order.order_trans by blast
  then show False
    using replace_fence_none by blast
qed

lemma strip_spaces_around:
  assumes "\<forall>c\<in>set a. is_space c" and "\<forall>c\<in>set z. is_space c"
  shows "strip (a @ b @ z) = strip b"
proof -
  have l: "\<And>x. dropWhile is_space (a @ x) = dropWhile is_space x"
    using assms(1) by (simp add: dropWhile_append)
  have r: "\<And>x. dropWhile is_space (rev z @ x) = dropWhile is_space x"
    using assms(2) by (simp add: dropWhile_append)
  show ?thesis
  proof (cases "\<forall>c\<in>set b. is_space c")
    case True
    have e1: "dropWhile is_space (a @ b @ z) = []"
      using assms True by simp
    have e2: "dropWhile is_space b = []"
      using True by simp
    show ?thesis
      unfolding strip_def e1 e2 by simp
  next
    case False
    then have "dropWhile is_space (b @ z) = dropWhile is_space b @ z"
      by (auto simp: dropWhile_append)
    then show ?thesis by (simp add: strip_def l r)
  qed
qed

lemma clean_json_wrapped:
  assumes "\<not> sublist ''```'' b"
  shows "clean_json (''```json'' @ NL @ b @ NL @ ''```'') = strip b"
proof -
  let ?nl = "CHR 0x0A"
  have nj: "\<not> sublist ''```json'' (?nl # b)"
    using assms sublist_fence_json by (auto simp: sublist_Cons_right)
  have nf: "\<not> sublist ''```'' (?nl # b)"
    using assms by (simp add: sublist_Cons_right)
  have "replace ''```json'' [] (''```json'' @ NL @ b @ NL @ ''```'')
      = replace ''```json'' [] ((?nl # b) @ ?nl # ''```'')"
    by (simp add: NL_def)
  also have "\<dots> = replace ''```json'' [] (?nl # b) @ replace ''```json'' [] (?nl # ''```'')"
    by (rule replace_append) simp
  also have "replace ''```json'' [] (?nl # b) = ?nl # b"
    using nj by (rule replace_absent)
  also have "replace ''```json'' [] (?nl # ''```'') = ?nl # ''```''"
    by simp
  finally have first: "replace ''```json'' [] (''```json'' @ NL @ b @ NL @ ''```'')
      = (?nl # b) @ ?nl # ''```''" .
  have "replace ''```'' [] ((?nl # b) @ ?nl # ''```'')
      = replace ''```'' [] (?nl # b) @ replace ''```'' [] (?nl # ''```'')"
    by (rule replace_append) simp
  also have "replace ''```'' [] (?nl # b) = ?nl # b"
    using nf by (rule replace_absent)
  also have "replace ''```'' [] (?nl # ''```'') = [?nl]"
    by simp
  finally have second: "replace ''```'' [] ((?nl # b) @ ?nl # ''```'') = [?nl] @ b @ [?nl]"
    by simp
  have sp: "\<forall>c\<in>set [?nl]. is_space c"
    by (simp add: is_space_def)
  from first second have "clean_json (''```json'' @ NL @ b @ NL @ ''```'') = strip ([?nl] @ b @ [?nl])"
    by (simp only: clean_json_def)
  also have "\<dots> = strip b"
    using sp sp by (rule strip_spaces_around)
  finally show ?thesis .
qed

section \<open>The display-text normaliser\<close>

text \<open>
  Claim C1 says that \<open>smart_format_text\<close> is idempotent. It is not: the second
  replacement looks for a space followed by \<open>Uni\<close> with nothing required after it, so it
  fires again inside the word \<open>University\<close> that the first application produced. At the
  input \<open>a uni\<close> one application gives \<open>A University\<close> and a second one gives
  \<open>A Universityversity\<close>.
\<close>

theorem smart_format_text_not_idempotent:
  "smart_format_text (Some ''a uni'') = ''A University''
   \<and> smart_format_text (Some (smart_format_text (Some ''a uni''))) = ''A Universityversity''
   \<and> smart_format_text (Some (smart_format_text (Some ''a uni'')))
       \<noteq> smart_format_text (Some ''a uni'')"
  by code_simp

text \<open>
  Claim C10 as stated, refuted: a \<open>Uni\<close> that follows a space and is followed by a comma
  is rewritten, not left as it is.
\<close>

theorem smart_format_text_comma_counterexample:
  "title (strip ''delhi uni, india'') = ''Delhi Uni, India''
   \<and> smart_format_text (Some ''delhi uni, india'') = ''Delhi University, India''"
  by code_simp

text \<open>
  Claim C10, amended: \<open>smart_format_text\<close> rewrites \<open>Uni\<close> only where a space
  precedes it. A text whose stripped, title-cased form has no space followed by \<open>Uni\<close>
  is returned in that form unchanged; a \<open>Uni\<close> at the very start of that form stays, and
  only the rest of the text is subject to the two replacements; and where the form has
  no \<open>Uni\<close> between two spaces, a \<open>Uni\<close> after a space and before a comma is
  rewritten to \<open>University\<close>.
\<close>

theorem smart_format_text_rewrites_after_space:
  "(\<not> sublist '' Uni'' (title (strip t)) \<longrightarrow>
      smart_format_text (Some t) = title (strip t))
   \<and> (title (strip t) = ''Uni'' @ r \<longrightarrow>
      smart_format_text (Some t)
        = ''Uni'' @ replace '' Uni'' '' University'' (replace '' Uni '' '' University '' r))
   \<and> (title (strip t) = a @ '' Uni,'' @ r' \<and> \<not> sublist '' Uni '' (title (strip t)) \<longrightarrow>
      smart_format_text (Some t)
        = replace '' Uni'' '' University'' a @ '' University,''
            @ replace '' Uni'' '' University'' r')"
proof (intro conjI impI)
  assume "\<not> sublist '' Uni'' (title (strip t))"
  then show "smart_format_text (Some t) = title (strip t)"
    by (rule smart_format_text_absent)
next
  assume "title (strip t) = ''Uni'' @ r"
  then show "smart_format_text (Some t)
      = ''Uni'' @ replace '' Uni'' '' University'' (replace '' Uni '' '' University '' r)"
    by (rule smart_format_text_leading)
next
  assume h: "title (strip t) = a @ '' Uni,'' @ r' \<and> \<not> sublist '' Uni '' (title (strip t))"
  then have ne: "t \<noteq> []"
    by (auto simp: title_def strip_def)
  from h have "\<not> sublist '' Uni '' (title (strip t))" ..
  then have "replace '' Uni '' '' University '' (title (strip t)) = title (strip t)"
    by (rule replace_absent)
  with ne have "smart_format_text (Some t) = replace '' Uni'' '' University'' (title (strip t))"
    by (simp add: smart_format_text_def)
  moreover from h have "title (strip t) = a @ '' Uni,'' @ r'" ..
  ultimately have "smart_format_text (Some t)
      = replace '' Uni'' '' University'' (a @ '' Uni,'' @ r')"
    by (simp only:)
  then show "smart_format_text (Some t)
      = replace '' Uni'' '' University'' a @ '' University,''
          @ replace '' Uni'' '' University'' r'"
    by (simp only: rep_Uni_comma)
qed

theorem smart_format_text_rewrites_after_space_witness:
  "smart_format_text (Some ''Uni of Delhi'') = ''Uni Of Delhi''
   \<and> smart_format_text (Some ''Uni of Delhi'') = ''Uni'' @ '' Of Delhi''
   \<and> smart_format_text (Some ''delhi uni, india'') = ''Delhi'' @ '' University,'' @ '' India''"
proof -
  have t1: "title (strip ''Uni of Delhi'') = ''Uni Of Delhi''"
    by code_simp
  have h1: "\<not> sublist '' Uni'' (title (strip ''Uni of Delhi''))"
    by code_simp
  have h2: "title (strip ''Uni of Delhi'') = ''Uni'' @ '' Of Delhi''"
    by code_simp
  have r2: "replace '' Uni'' '' University'' (replace '' Uni '' '' University '' '' Of Delhi'')
      = '' Of Delhi''"
    by code_simp
  have h3: "title (strip ''delhi uni, india'') = ''Delhi'' @ '' Uni,'' @ '' India''
      \<and> \<not> sublist '' Uni '' (title (strip ''delhi uni, india''))"
    by code_simp
  have r3: "replace '' Uni'' '' University'' ''Delhi'' = ''Delhi''"
    "replace '' Uni'' '' University'' '' India'' = '' India''"
    by code_simp+
  note thm1 = smart_format_text_rewrites_after_space
    [of "''Uni of Delhi''" "'' Of Delhi''" "''Delhi''" "'' India''"]
  note thm3 = smart_format_text_rewrites_after_space
    [of "''delhi uni, india''" "'' India''" "''Delhi''" "'' India''"]
  from thm1 h1 have "smart_format_text (Some ''Uni of Delhi'') = title (strip ''Uni of Delhi'')"
    by blast
  then have c1: "smart_format_text (Some ''Uni of Delhi'') = ''Uni Of Delhi''"
    by (simp only: t1)
  from thm1 h2 have "smart_format_text (Some ''Uni of Delhi'')
      = ''Uni'' @ replace '' Uni'' '' University''
          (replace '' Uni '' '' University '' '' Of Delhi'')"
    by blast
  then have c2: "smart_format_text (Some ''Uni of Delhi'') = ''Uni'' @ '' Of Delhi''"
    by (simp only: r2)
  from thm3 h3 have "smart_format_text (Some ''delhi uni, india'')
      = replace '' Uni'' '' University'' ''Delhi'' @ '' University,''
          @ replace '' Uni'' '' University'' '' India''"
    by blast
  then have c3: "smart_format_text (Some ''delhi uni, india'')
      = ''Delhi'' @ '' University,'' @ '' India''"
    by (simp only: r3)
  from c1 c2 c3 show ?thesis by blast
qed

section \<open>The skill-list normaliser\<close>

text \<open>
  Claim C6: \<open>smart_format_skills\<close> splits its input on the runs of commas and white
  space, drops the empty fragments, trims and title-cases the others and joins them
  with a comma and a space: on every text it computes what the specification's reading
  \<open>normalize_skill_list_spec\<close> computes, an absent field gives the empty text, and
  the example of the specification comes out as stated.
\<close>

theorem smart_format_skills_correct:
  "smart_format_skills (Some s) = normalize_skill_list_spec s
   \<and> smart_format_skills None = []
   \<and> smart_format_skills (Some ''python, React  node.js,,java'') = ''Python, React, Node.Js, Java''"
proof -
  have "smart_format_skills (Some ''python, React  node.js,,java'') = ''Python, React, Node.Js, Java''"
    by code_simp
  moreover have "smart_format_skills None = []"
    by (simp add: smart_format_skills_def)
  ultimately show ?thesis
    by (simp only: smart_format_skills_refines simp_thms)
qed

section \<open>The text extractor: claim C8\<close>

text \<open>
  Claim C8 as stated, refuted: a page that yields no text because its extraction raises
  is not replaced by the empty text. One handler encloses the whole loop, so for the
  pages \<open>Hello\<close>, a page that raises, and \<open>World\<close> the result is the empty text, not
  \<open>HelloWorld\<close>: the text of the other pages is lost.
\<close>

theorem extract_text_from_pdf_raising_page_counterexample:
  "extract_text_from_pdf
     [''a.pdf'' \<mapsto> Inr [Inr (Some ''Hello''), Inl (Exn ''KeyError'' ''/Contents''),
                            Inr (Some ''World'')]] ''a.pdf'' = []
   \<and> extract_text_from_pdf
       [''a.pdf'' \<mapsto> Inr [Inr (Some ''Hello''), Inl (Exn ''KeyError'' ''/Contents''),
                              Inr (Some ''World'')]] ''a.pdf'' \<noteq> ''HelloWorld''"
  by code_simp

text \<open>
  Claim C8, amended: when no page's extraction raises, \<open>extract_text_from_pdf\<close> returns
  the texts of the pages, concatenated in page order, with the empty text for a page
  that gives \<open>None\<close> or nothing. When the file cannot be opened or read as a PDF, or
  the extraction of any page raises, it returns the empty text. It always returns a
  text, never an exception.
\<close>

theorem extract_text_from_pdf_correct:
  "(files path = Some (Inr (map Inr ts)) \<longrightarrow>
      extract_text_from_pdf files path = concat (map or_empty ts))
   \<and> or_empty None = [] \<and> or_empty (Some s) = s
   \<and> (files path = None \<longrightarrow> extract_text_from_pdf files path = [])
   \<and> (files path = Some (Inl e) \<longrightarrow> extract_text_from_pdf files path = [])
   \<and> (files path = Some (Inr pages) \<and> Inl e \<in> set pages \<longrightarrow>
        extract_text_from_pdf files path = [])"
proof (intro conjI impI)
  assume "files path = Some (Inr (map Inr ts))"
  then show "extract_text_from_pdf files path = concat (map or_empty ts)"
    by (simp add: extract_text_from_pdf_def open_pdf_def extract_pages_texts)
next
  show "or_empty None = []" by (simp add: or_empty_def)
next
  show "or_empty (Some s) = s" by (simp add: or_empty_def)
next
  assume "files path = None"
  then show "extract_text_from_pdf files path = []"
    by (simp add: extract_text_from_pdf_def open_pdf_def)
next
  assume "files path = Some (Inl e)"
  then show "extract_text_from_pdf files path = []"
    by (simp add: extract_text_from_pdf_def open_pdf_def)
next
  assume h: "files path = Some (Inr pages) \<and> Inl e \<in> set pages"
  then obtain e' where "extract_pages [] pages = Inl e'"
    using extract_pages_raise by blast
  with h show "extract_text_from_pdf files path = []"
    by (simp add: extract_text_from_pdf_def open_pdf_def)
qed

theorem extract_text_from_pdf_correct_witness:
  "extract_text_from_pdf [''a.pdf'' \<mapsto> Inr [Inr (Some ''Hello ''), Inr None, Inr (Some ''World'')]]
     ''a.pdf'' = ''Hello World''
   \<and> extract_text_from_pdf Map.empty ''a.pdf'' = []
   \<and> extract_text_from_pdf [''a.pdf'' \<mapsto> Inl (Exn ''PdfReadError'' ''EOF marker not found'')]
       ''a.pdf'' = []
   \<and> extract_text_from_pdf
       [''a.pdf'' \<mapsto> Inr [Inr (Some ''Hello''), Inl (Exn ''KeyError'' ''/Contents'')]] ''a.pdf'' = []"
proof -
  let ?e1 = "Exn ''PdfReadError'' ''EOF marker not found''"
  let ?e2 = "Exn ''KeyError'' ''/Contents''"
  let ?f1 = "[''a.pdf'' \<mapsto> Inr (map Inr [Some ''Hello '', None, Some ''World''])] :: string \<rightharpoonup> pdf"
  let ?f3 = "[''a.pdf'' \<mapsto> Inl ?e1] :: string \<rightharpoonup> pdf"
  let ?f4 = "[''a.pdf'' \<mapsto> Inr [Inr (Some ''Hello''), Inl ?e2]] :: string \<rightharpoonup> pdf"
  have h1: "?f1 ''a.pdf'' = Some (Inr (map Inr [Some ''Hello '', None, Some ''World'']))"
    by simp
  have h2: "(Map.empty :: string \<rightharpoonup> pdf) ''a.pdf'' = None"
    by simp
  have h3: "?f3 ''a.pdf'' = Some (Inl ?e1)"
    by simp
  have h4: "?f4 ''a.pdf'' = Some (Inr [Inr (Some ''Hello''), Inl ?e2])
      \<and> Inl ?e2 \<in> set [Inr (Some ''Hello''), Inl ?e2]"
    by simp
  from h1 extract_text_from_pdf_correct
    [where files = ?f1 and path = "''a.pdf''" and ts = "[Some ''Hello '', None, Some ''World'']"]
  have "extract_text_from_pdf ?f1 ''a.pdf''
      = concat (map or_empty [Some ''Hello '', None, Some ''World''])"
    by blast
  then have c1: "extract_text_from_pdf ?f1 ''a.pdf'' = ''Hello World''"
    by (simp add: or_empty_def)
  from h2 extract_text_from_pdf_correct [where files = Map.empty and path = "''a.pdf''"]
  have c2: "extract_text_from_pdf Map.empty ''a.pdf'' = []"
    by blast
  from h3 extract_text_from_pdf_correct [where files = ?f3 and path = "''a.pdf''" and e = ?e1]
  have c3: "extract_text_from_pdf ?f3 ''a.pdf'' = []"
    by blast
  from h4 extract_text_from_pdf_correct
    [where files = ?f4 and path = "''a.pdf''" and e = ?e2
       and pages = "[Inr (Some ''Hello''), Inl ?e2]"]
  have c4: "extract_text_from_pdf ?f4 ''a.pdf'' = []"
    by blast
  from c1 c2 c3 c4 show ?thesis by simp
qed

section \<open>The response validator: claims C2 and C4\<close>

text \<open>
  Claim C2 as stated, refuted. A reply that is valid JSON but not an object of the
  contract, here the list \<open>[1, 2]\<close>, is returned as it was parsed and not replaced by
  the failure result; and the failure result, shown for a reply in prose, has no
  field \<open>failed\<close>: looking it up gives the default.
\<close>

theorem analyze_with_gemini_failure_counterexample:
  "fst (analyze_with_gemini (stub_env (Inr ''[1, 2]'')) ''cv'' ''jd'' empty_world)
     = JList [JInt 1, JInt 2]
   \<and> dict_get (fst (analyze_with_gemini (stub_env (Inr ''Sorry, I cannot help.'')) ''cv'' ''jd''
        empty_world)) ''failed'' (JBool False) = Inr (JBool False)"
  by code_simp

text \<open>
  Claim C2, amended: when the call to the engine raises, or the cleaned reply is not
  valid JSON, \<open>analyze_with_gemini\<close> returns, without raising, the dictionary with
  score 0, a summary that is \<open>AI Analysis Failed. Error:\<close> followed by the text of the
  exception, empty lists of grammar errors and missing keywords, and the single
  improvement \<open>Check API Key or Internet connection.\<close> The dictionary has no field
  \<open>failed\<close>, and a reply that parses is not checked against the contract.
\<close>

theorem analyze_with_gemini_failure:
  "(generate_content env (ats_prompt rt jd) = Inl e
    \<or> generate_content env (ats_prompt rt jd) = Inr reply \<and> json_loads (clean_json reply) = Inl e)
   \<longrightarrow>
   fst (analyze_with_gemini env rt jd w)
     = JDict [(''score'', JInt 0),
              (''summary'', JStr (''AI Analysis Failed. Error: '' @ exn_str e)),
              (''grammar_errors'', JList []),
              (''missing_keywords'', JList []),
              (''improvements'', JList [JStr ''Check API Key or Internet connection.''])]"
proof
  assume "generate_content env (ats_prompt rt jd) = Inl e
    \<or> generate_content env (ats_prompt rt jd) = Inr reply \<and> json_loads (clean_json reply) = Inl e"
  then have "analyze_with_gemini env rt jd w
      = (failure_result e, w\<lparr>engine_log := engine_log w @ [ats_prompt rt jd]\<rparr>)"
    using analyze_engine_fails analyze_parse_fails by blast
  then show "fst (analyze_with_gemini env rt jd w)
     = JDict [(''score'', JInt 0),
              (''summary'', JStr (''AI Analysis Failed. Error: '' @ exn_str e)),
              (''grammar_errors'', JList []),
              (''missing_keywords'', JList []),
              (''improvements'', JList [JStr ''Check API Key or Internet connection.''])]"
    by (simp add: failure_result_def)
qed

theorem analyze_with_gemini_failure_witness:
  "fst (analyze_with_gemini (stub_env (Inr ''Sorry, I cannot help.'')) ''cv'' ''jd'' empty_world)
     = JDict [(''score'', JInt 0),
              (''summary'', JStr ''AI Analysis Failed. Error: Expecting value: line 1 column 1 (char 0)''),
              (''grammar_errors'', JList []),
              (''missing_keywords'', JList []),
              (''improvements'', JList [JStr ''Check API Key or Internet connection.''])]
   \<and> fst (analyze_with_gemini (stub_env (Inl (Exn ''DeadlineExceeded'' ''504 Deadline Exceeded'')))
        ''cv'' ''jd'' empty_world)
     = JDict [(''score'', JInt 0),
              (''summary'', JStr ''AI Analysis Failed. Error: 504 Deadline Exceeded''),
              (''grammar_errors'', JList []),
              (''missing_keywords'', JList []),
              (''improvements'', JList [JStr ''Check API Key or Internet connection.''])]"
proof -
  let ?e1 = "Exn ''JSONDecodeError'' ''Expecting value: line 1 column 1 (char 0)''"
  let ?e2 = "Exn ''DeadlineExceeded'' ''504 Deadline Exceeded''"
  have p: "json_loads (clean_json ''Sorry, I cannot help.'') = Inl ?e1"
    by code_simp
  have h1: "generate_content (stub_env (Inr ''Sorry, I cannot help.'')) (ats_prompt ''cv'' ''jd'')
      = Inr ''Sorry, I cannot help.''"
    by (simp add: stub_env_def)
  have h2: "generate_content (stub_env (Inl ?e2)) (ats_prompt ''cv'' ''jd'') = Inl ?e2"
    by (simp add: stub_env_def)
  from h1 p analyze_with_gemini_failure
    [where env = "stub_env (Inr ''Sorry, I cannot help.'')" and rt = "''cv''" and jd = "''jd''"
       and e = ?e1 and reply = "''Sorry, I cannot help.''" and w = empty_world]
  have c1: "fst (analyze_with_gemini (stub_env (Inr ''Sorry, I cannot help.'')) ''cv'' ''jd''
        empty_world)
     = JDict [(''score'', JInt 0),
              (''summary'', JStr (''AI Analysis Failed. Error: '' @ exn_str ?e1)),
              (''grammar_errors'', JList []),
              (''missing_keywords'', JList []),
              (''improvements'', JList [JStr ''Check API Key or Internet connection.''])]"
    by blast
  from h2 analyze_with_gemini_failure
    [where env = "stub_env (Inl ?e2)" and rt = "''cv''" and jd = "''jd''"
       and e = ?e2 and w = empty_world]
  have c2: "fst (analyze_with_gemini (stub_env (Inl ?e2)) ''cv'' ''jd'' empty_world)
     = JDict [(''score'', JInt 0),
              (''summary'', JStr (''AI Analysis Failed. Error: '' @ exn_str ?e2)),
              (''grammar_errors'', JList []),
              (''missing_keywords'', JList []),
              (''improvements'', JList [JStr ''Check API Key or Internet connection.''])]"
    by blast
  from c1 c2 show ?thesis by simp
qed

text \<open>
  Claim C4 as stated, refuted: for the reply \<open>{"score": 82, "extra": true}\<close> the result
  is exactly the parsed object. The unexpected field \<open>extra\<close> is still there, and the
  missing fields \<open>summary\<close>, \<open>grammar_errors\<close>, \<open>missing_keywords\<close> and
  \<open>improvements\<close> have not been added.
\<close>

theorem analyze_with_gemini_coercion_counterexample:
  \<open>fst (analyze_with_gemini (stub_env (Inr ''{"score": 82, "extra": true}'')) ''cv'' ''jd''
          empty_world)
     = JDict [(''score'', JInt 82), (''extra'', JBool True)]\<close>
  by code_simp

text \<open>
  Claim C4, amended: when the cleaned reply is valid JSON, \<open>analyze_with_gemini\<close>
  returns the parsed value as it is; no field is added and none is removed. The only
  default is applied when the scan is stored: an object without the field \<open>score\<close> is
  stored with score 0, next to the unchanged object.
\<close>

theorem analyze_with_gemini_returns_parsed:
  "(generate_content env (ats_prompt rt jd) = Inr reply \<and> json_loads (clean_json reply) = Inr v
      \<longrightarrow> fst (analyze_with_gemini env rt jd w) = v)
   \<and> (db_commit env = None \<and> map_of d ''score'' = None \<longrightarrow>
        db_scans (save_scan env (JDict d) w)
          = db_scans w @ [\<lparr>scan_user_id = current_user_id env, scan_score = JInt 0,
                            scan_data = JDict d\<rparr>])"
proof (intro conjI impI)
  assume "generate_content env (ats_prompt rt jd) = Inr reply \<and> json_loads (clean_json reply) = Inr v"
  then have "analyze_with_gemini env rt jd w
      = (v, w\<lparr>engine_log := engine_log w @ [ats_prompt rt jd]\<rparr>)"
    using analyze_parses by blast
  then show "fst (analyze_with_gemini env rt jd w) = v"
    by simp
next
  assume "db_commit env = None \<and> map_of d ''score'' = None"
  then show "db_scans (save_scan env (JDict d) w)
      = db_scans w @ [\<lparr>scan_user_id = current_user_id env, scan_score = JInt 0,
                        scan_data = JDict d\<rparr>]"
    by (simp add: save_scan_def dict_get_def)
qed

theorem analyze_with_gemini_returns_parsed_witness:
  \<open>fst (analyze_with_gemini (stub_env (Inr ''{"score": 82, "extra": true}'')) ''cv'' ''jd''
          empty_world)
     = JDict [(''score'', JInt 82), (''extra'', JBool True)]
   \<and> db_scans (save_scan (stub_env (Inr [])) (JDict [(''summary'', JStr ''ok'')]) empty_world)
     = [\<lparr>scan_user_id = 1, scan_score = JInt 0,
          scan_data = JDict [(''summary'', JStr ''ok'')]\<rparr>]\<close>
proof -
  let ?reply = \<open>''{"score": 82, "extra": true}''\<close>
  let ?v = "JDict [(''score'', JInt 82), (''extra'', JBool True)]"
  have p: "json_loads (clean_json ?reply) = Inr ?v"
    by code_simp
  have h1: "generate_content (stub_env (Inr ?reply)) (ats_prompt ''cv'' ''jd'') = Inr ?reply"
    by (simp add: stub_env_def)
  have h2: "db_commit (stub_env (Inr [])) = None \<and> map_of [(''summary'', JStr ''ok'')] ''score'' = None"
    by (simp add: stub_env_def)
  from h1 p analyze_with_gemini_returns_parsed
    [where env = "stub_env (Inr ?reply)" and rt = "''cv''" and jd = "''jd''" and reply = ?reply
       and v = ?v and w = empty_world]
  have c1: "fst (analyze_with_gemini (stub_env (Inr ?reply)) ''cv'' ''jd'' empty_world) = ?v"
    by blast
  from h2 analyze_with_gemini_returns_parsed
    [where env = "stub_env (Inr [])" and d = "[(''summary'', JStr ''ok'')]" and w = empty_world]
  have "db_scans (save_scan (stub_env (Inr [])) (JDict [(''summary'', JStr ''ok'')]) empty_world)
      = db_scans empty_world
          @ [\<lparr>scan_user_id = current_user_id (stub_env (Inr [])), scan_score = JInt 0,
               scan_data = JDict [(''summary'', JStr ''ok'')]\<rparr>]"
    by blast
  then have c2: "db_scans (save_scan (stub_env (Inr [])) (JDict [(''summary'', JStr ''ok'')])
        empty_world)
      = [\<lparr>scan_user_id = 1, scan_score = JInt 0, scan_data = JDict [(''summary'', JStr ''ok'')]\<rparr>]"
    by (simp add: stub_env_def empty_world_def)
  from c1 c2 show ?thesis by simp
qed

section \<open>The scan route: claim C3\<close>

text \<open>
  Claim C3 as stated, refuted: for an upload of one page without text the route sends
  no prompt to the engine, but it produces no analysis result at all. The template is
  rendered with \<open>None\<close> as the result, nothing is stored, and the user gets a flashed
  warning; there is no result with a score of 0 or a summary.
\<close>

theorem ats_tool_unreadable_counterexample:
  "fst (ats_tool (stub_env (Inr ''{}'')) (scan_request (Inr [Inr None])) empty_world)
     = RenderTemplate ''tools/ats.html'' None
   \<and> db_scans (snd (ats_tool (stub_env (Inr ''{}'')) (scan_request (Inr [Inr None])) empty_world))
     = []"
  by code_simp

text \<open>
  Claim C3, amended: for every scan request whose upload yields empty extracted text,
  \<open>ats_tool\<close> sends nothing to the reasoning engine and stores no scan; it renders the
  page with no result and flashes the warning
  \<open>Could not read PDF. Make sure it contains text.\<close>
\<close>

theorem ats_tool_unreadable:
  assumes "req_method req = ''POST''"
    and "req_files req ''resume'' = Some file"
    and "filename file \<noteq> []"
    and "req_form req ''jd'' = Some jd"
    and "jd \<noteq> []"
    and "extract_text_from_pdf
           ((fs w)(''static/uploads/'' @ secure_filename env (filename file) \<mapsto> content file))
           (''static/uploads/'' @ secure_filename env (filename file)) = []"
  shows "fst (ats_tool env req w) = RenderTemplate ''tools/ats.html'' None
    \<and> engine_log (snd (ats_tool env req w)) = engine_log w
    \<and> db_scans (snd (ats_tool env req w)) = db_scans w
    \<and> flashes (snd (ats_tool env req w))
        = flashes w @ [(''Could not read PDF. Make sure it contains text.'', ''warning'')]"
  using assms by (simp add: ats_tool_def truthy_def flash_def Let_def)

theorem ats_tool_unreadable_witness:
  "fst (ats_tool (stub_env (Inr ''{}'')) (scan_request (Inr [Inr None])) empty_world)
     = RenderTemplate ''tools/ats.html'' None
   \<and> engine_log (snd (ats_tool (stub_env (Inr ''{}'')) (scan_request (Inr [Inr None])) empty_world))
     = []
   \<and> db_scans (snd (ats_tool (stub_env (Inr ''{}'')) (scan_request (Inr [Inr None])) empty_world))
     = []
   \<and> flashes (snd (ats_tool (stub_env (Inr ''{}'')) (scan_request (Inr [Inr None])) empty_world))
     = [(''Could not read PDF. Make sure it contains text.'', ''warning'')]"
proof -
  let ?env = "stub_env (Inr ''{}'')"
  let ?req = "scan_request (Inr [Inr None])"
  let ?file = "\<lparr>filename = ''cv.pdf'', content = Inr [Inr None]\<rparr>"
  have a1: "req_method ?req = ''POST''"
    by (simp add: scan_request_def)
  have a2: "req_files ?req ''resume'' = Some ?file"
    by (simp add: scan_request_def)
  have a3: "filename ?file \<noteq> []"
    by simp
  have a4: "req_form ?req ''jd'' = Some ''Looking for Go developer''"
    by (simp add: scan_request_def)
  have a5: "''Looking for Go developer'' \<noteq> []"
    by simp
  have a6: "extract_text_from_pdf
      ((fs empty_world)(''static/uploads/'' @ secure_filename ?env (filename ?file) \<mapsto> content ?file))
      (''static/uploads/'' @ secure_filename ?env (filename ?file)) = []"
    by (simp add: extract_text_from_pdf_def open_pdf_def or_empty_def)
  from ats_tool_unreadable [OF a1 a2 a3 a4 a5 a6] show ?thesis
    by (simp add: empty_world_def)
qed

section \<open>The draft builder: claim C5\<close>

text \<open>
  Claim C5: in \<open>resume_builder\<close> a summary field that is absent, empty or made of white
  space only leads to exactly one call of the reasoning engine, and a summary with any
  other content to none. When that one call fails the summary is the fixed sentence
  \<open>Passionate student looking for opportunities to apply skills and grow.\<close>, and when
  it answers the summary is the stripped answer. A failure of the engine never fails the
  draft: with a database that commits, the resume is stored and the user redirected to it.
\<close>

theorem resume_builder_summary:
  "((req_form req ''summary'' = None \<or> req_form req ''summary'' = Some s \<and> strip s = []) \<longrightarrow>
      engine_log (snd (build_resume env req w))
        = engine_log w
            @ [summary_prompt (smart_format_text (req_form req ''full_name''))
                 (smart_format_skills (req_form req ''skills''))
                 (smart_format_text (req_form req ''edu_degree''))
                 (smart_format_text (req_form req ''edu_college''))]
      \<and> (\<forall>e. generate_content env
                 (summary_prompt (smart_format_text (req_form req ''full_name''))
                    (smart_format_skills (req_form req ''skills''))
                    (smart_format_text (req_form req ''edu_degree''))
                    (smart_format_text (req_form req ''edu_college''))) = Inl e \<longrightarrow>
             resume_summary (fst (build_resume env req w))
               = ''Passionate student looking for opportunities to apply skills and grow.'')
      \<and> (\<forall>reply. generate_content env
                 (summary_prompt (smart_format_text (req_form req ''full_name''))
                    (smart_format_skills (req_form req ''skills''))
                    (smart_format_text (req_form req ''edu_degree''))
                    (smart_format_text (req_form req ''edu_college''))) = Inr reply \<longrightarrow>
             resume_summary (fst (build_resume env req w)) = strip reply))
   \<and> (req_form req ''summary'' = Some s \<and> strip s \<noteq> [] \<longrightarrow>
        engine_log (snd (build_resume env req w)) = engine_log w
        \<and> resume_summary (fst (build_resume env req w)) = s)
   \<and> (req_method req = ''POST'' \<and> db_commit env = None \<longrightarrow>
        resume_builder env req w
          = Inr (RedirectResumeView (Suc (length (db_resumes (snd (build_resume env req w))))),
                 (snd (build_resume env req w))
                   \<lparr>db_resumes := db_resumes (snd (build_resume env req w))
                                    @ [fst (build_resume env req w)]\<rparr>))"
proof (intro conjI impI)
  assume blank: "req_form req ''summary'' = None \<or> req_form req ''summary'' = Some s \<and> strip s = []"
  then have b: "\<not> truthy (req_form req ''summary'') \<or> strip (the (req_form req ''summary'')) = []"
    by (auto simp: truthy_def)
  let ?p = "summary_prompt (smart_format_text (req_form req ''full_name''))
      (smart_format_skills (req_form req ''skills''))
      (smart_format_text (req_form req ''edu_degree''))
      (smart_format_text (req_form req ''edu_college''))"
  from b show "engine_log (snd (build_resume env req w)) = engine_log w @ [?p]"
    by (simp add: build_resume_def Let_def)
  from b show "\<forall>e. generate_content env ?p = Inl e \<longrightarrow>
      resume_summary (fst (build_resume env req w))
        = ''Passionate student looking for opportunities to apply skills and grow.''"
    by (simp add: build_resume_def Let_def fallback_summary_def)
  from b show "\<forall>reply. generate_content env ?p = Inr reply \<longrightarrow>
      resume_summary (fst (build_resume env req w)) = strip reply"
    by (simp add: build_resume_def Let_def)
next
  assume given: "req_form req ''summary'' = Some s \<and> strip s \<noteq> []"
  then have "s \<noteq> []"
    by (auto simp: strip_def)
  with given have g: "truthy (req_form req ''summary'')" "strip (the (req_form req ''summary'')) \<noteq> []"
    "the (req_form req ''summary'') = s"
    by (simp_all add: truthy_def)
  from g show "engine_log (snd (build_resume env req w)) = engine_log w"
    by (simp add: build_resume_def Let_def)
  from g show "resume_summary (fst (build_resume env req w)) = s"
    by (simp add: build_resume_def Let_def)
next
  assume "req_method req = ''POST'' \<and> db_commit env = None"
  then show "resume_builder env req w
      = Inr (RedirectResumeView (Suc (length (db_resumes (snd (build_resume env req w))))),
             (snd (build_resume env req w))
               \<lparr>db_resumes := db_resumes (snd (build_resume env req w))
                                @ [fst (build_resume env req w)]\<rparr>)"
    by (simp add: resume_builder_def split_beta)
qed

theorem resume_builder_summary_witness:
  "length (engine_log (snd (build_resume (stub_env (Inl (Exn ''PermissionDenied'' ''API key not valid'')))
       (draft_request None) empty_world))) = 1
   \<and> resume_summary (fst (build_resume (stub_env (Inl (Exn ''PermissionDenied'' ''API key not valid'')))
       (draft_request None) empty_world))
     = ''Passionate student looking for opportunities to apply skills and grow.''
   \<and> length (engine_log (snd (build_resume (stub_env (Inr ''  A keen engineer.  ''))
       (draft_request (Some ''   '')) empty_world))) = 1
   \<and> resume_summary (fst (build_resume (stub_env (Inr ''  A keen engineer.  ''))
       (draft_request (Some ''   '')) empty_world)) = ''A keen engineer.''
   \<and> engine_log (snd (build_resume (stub_env (Inr ''unused''))
       (draft_request (Some ''Seasoned developer'')) empty_world)) = []
   \<and> resume_summary (fst (build_resume (stub_env (Inr ''unused''))
       (draft_request (Some ''Seasoned developer'')) empty_world)) = ''Seasoned developer''
   \<and> (\<exists>r. resume_builder (stub_env (Inl (Exn ''PermissionDenied'' ''API key not valid'')))
       (draft_request None) empty_world = Inr r)"
proof -
  let ?e = "Exn ''PermissionDenied'' ''API key not valid''"
  let ?env1 = "stub_env (Inl ?e)"
  let ?env2 = "stub_env (Inr ''  A keen engineer.  '')"
  let ?env3 = "stub_env (Inr ''unused'')"
  note t1 = resume_builder_summary [where req = "draft_request None" and env = ?env1
      and w = empty_world]
  note t2 = resume_builder_summary [where req = "draft_request (Some ''   '')" and env = ?env2
      and w = empty_world and s = "''   ''"]
  note t3 = resume_builder_summary [where req = "draft_request (Some ''Seasoned developer'')"
      and env = ?env3 and w = empty_world and s = "''Seasoned developer''"]
  have h1: "req_form (draft_request None) ''summary'' = None"
    by (simp add: draft_request_def)
  have g1: "\<And>p. generate_content ?env1 p = Inl ?e"
    by (simp add: stub_env_def)
  have s2: "strip ''   '' = []"
    by code_simp
  have h2: "req_form (draft_request (Some ''   '')) ''summary'' = Some ''   ''"
    by (simp add: draft_request_def)
  have g2: "\<And>p. generate_content ?env2 p = Inr ''  A keen engineer.  ''"
    by (simp add: stub_env_def)
  have r2: "strip ''  A keen engineer.  '' = ''A keen engineer.''"
    by code_simp
  have s3: "strip ''Seasoned developer'' \<noteq> []"
    by code_simp
  have h3: "req_form (draft_request (Some ''Seasoned developer'')) ''summary''
      = Some ''Seasoned developer''"
    by (simp add: draft_request_def)
  have h4: "req_method (draft_request None) = ''POST'' \<and> db_commit ?env1 = None"
    by (simp add: draft_request_def stub_env_def)
  from t1 h1 g1 have c1: "length (engine_log (snd (build_resume ?env1 (draft_request None)
      empty_world))) = 1"
    by (simp add: empty_world_def)
  from t1 h1 g1 have c2: "resume_summary (fst (build_resume ?env1 (draft_request None) empty_world))
      = ''Passionate student looking for opportunities to apply skills and grow.''"
    by blast
  from t2 h2 s2 have c3: "length (engine_log (snd (build_resume ?env2 (draft_request (Some ''   ''))
      empty_world))) = 1"
    by (simp add: empty_world_def)
  from t2 h2 s2 g2 have "resume_summary (fst (build_resume ?env2 (draft_request (Some ''   ''))
      empty_world)) = strip ''  A keen engineer.  ''"
    by blast
  then have c4: "resume_summary (fst (build_resume ?env2 (draft_request (Some ''   ''))
      empty_world)) = ''A keen engineer.''"
    by (simp only: r2)
  from t3 h3 s3 have c5: "engine_log (snd (build_resume ?env3
      (draft_request (Some ''Seasoned developer'')) empty_world)) = []"
    by (simp add: empty_world_def)
  from t3 h3 s3 have c6: "resume_summary (fst (build_resume ?env3
      (draft_request (Some ''Seasoned developer'')) empty_world)) = ''Seasoned developer''"
    by blast
  from t1 h4 have c7: "\<exists>r. resume_builder ?env1 (draft_request None) empty_world = Inr r"
    by blast
  from c1 c2 c3 c4 c5 c6 c7 show ?thesis
    by blast
qed

section \<open>The fence cleanup: claims C7 and C9\<close>

text \<open>
  Claim C7: for a reply that is a JSON text wrapped in the fence markers, that is the
  opening marker \<open>```json\<close>, a line break, the JSON text, a line break and the closing
  marker \<open>```\<close>, the cleanup leaves exactly the stripped JSON text, and the result of
  \<open>analyze_with_gemini\<close> is the value of that text. For the wrapped object of the
  specification the result carries the score 82.
\<close>

theorem analyze_with_gemini_fenced:
  assumes "\<not> sublist ''```'' b"
    and "generate_content env (ats_prompt rt jd) = Inr (''```json'' @ NL @ b @ NL @ ''```'')"
    and "json_loads (strip b) = Inr v"
  shows "clean_json (''```json'' @ NL @ b @ NL @ ''```'') = strip b
    \<and> fst (analyze_with_gemini env rt jd w) = v"
proof
  from assms(1) show c: "clean_json (''```json'' @ NL @ b @ NL @ ''```'') = strip b"
    by (rule clean_json_wrapped)
  from assms(3) c have "json_loads (clean_json (''```json'' @ NL @ b @ NL @ ''```'')) = Inr v"
    by simp
  with assms(2) have "analyze_with_gemini env rt jd w
      = (v, w\<lparr>engine_log := engine_log w @ [ats_prompt rt jd]\<rparr>)"
    by (rule analyze_parses)
  then show "fst (analyze_with_gemini env rt jd w) = v"
    by simp
qed

theorem analyze_with_gemini_fenced_witness:
  \<open>fst (analyze_with_gemini
          (stub_env (Inr (''```json'' @ NL
             @ ''{"score":82,"summary":"Good match","grammar_errors":[],"missing_keywords":["Go"],"improvements":["Add Go projects"]}''
             @ NL @ ''```'')))
          ''cv'' ''jd'' empty_world)
     = JDict [(''score'', JInt 82), (''summary'', JStr ''Good match''),
              (''grammar_errors'', JList []), (''missing_keywords'', JList [JStr ''Go'']),
              (''improvements'', JList [JStr ''Add Go projects''])]\<close>
proof -
  let ?b = \<open>''{"score":82,"summary":"Good match","grammar_errors":[],"missing_keywords":["Go"],"improvements":["Add Go projects"]}''\<close>
  let ?v = "JDict [(''score'', JInt 82), (''summary'', JStr ''Good match''),
      (''grammar_errors'', JList []), (''missing_keywords'', JList [JStr ''Go'']),
      (''improvements'', JList [JStr ''Add Go projects''])]"
  let ?env = "stub_env (Inr (''```json'' @ NL @ ?b @ NL @ ''```''))"
  have a1: "\<not> sublist ''```'' ?b"
    by code_simp
  have a2: "generate_content ?env (ats_prompt ''cv'' ''jd'') = Inr (''```json'' @ NL @ ?b @ NL @ ''```'')"
    by (simp add: stub_env_def)
  have a3: "json_loads (strip ?b) = Inr ?v"
    by code_simp
  from analyze_with_gemini_fenced [OF a1 a2 a3, of empty_world] show ?thesis
    by (rule conjunct2)
qed

text \<open>
  Claim C9: before parsing, the cleanup removes every occurrence of \<open>```json\<close> and then
  every occurrence of \<open>```\<close>, wherever it is in the reply, and strips the white space
  at both ends. No fence marker is left in the cleaned text, and a marker inside a JSON
  string is removed like any other: the reply
  \<open>{"summary": "wrap code in ``` fences"}\<close> is parsed after the three backquotes have
  been taken out of its summary.
\<close>

theorem clean_json_removes_every_fence:
  \<open>clean_json reply = strip (replace ''```'' [] (replace ''```json'' [] reply))
   \<and> \<not> sublist ''```'' (clean_json reply)
   \<and> \<not> sublist ''```json'' (clean_json reply)
   \<and> json_loads ''{"summary": "wrap code in ``` fences"}''
       = Inr (JDict [(''summary'', JStr ''wrap code in ``` fences'')])
   \<and> clean_json ''{"summary": "wrap code in ``` fences"}''
       = ''{"summary": "wrap code in  fences"}''
   \<and> fst (analyze_with_gemini (stub_env (Inr ''{"summary": "wrap code in ``` fences"}''))
          ''cv'' ''jd'' empty_world)
       = JDict [(''summary'', JStr ''wrap code in  fences'')]\<close>
proof (intro conjI)
  show "clean_json reply = strip (replace ''```'' [] (replace ''```json'' [] reply))"
    by (simp only: clean_json_def)
  show "\<not> sublist ''```'' (clean_json reply)"
    by (rule clean_json_no_fence)
  then show "\<not> sublist ''```json'' (clean_json reply)"
    using sublist_fence_json by blast
  show \<open>json_loads ''{"summary": "wrap code in ``` fences"}''
      = Inr (JDict [(''summary'', JStr ''wrap code in ``` fences'')])\<close>
    by code_simp
  show \<open>clean_json ''{"summary": "wrap code in ``` fences"}''
      = ''{"summary": "wrap code in  fences"}''\<close>
    by code_simp
  show \<open>fst (analyze_with_gemini (stub_env (Inr ''{"summary": "wrap code in ``` fences"}''))
         ''cv'' ''jd'' empty_world)
      = JDict [(''summary'', JStr ''wrap code in  fences'')]\<close>
    by code_simp
qed

end
